theory Spec2Isabelle
  imports Complex_Main
begin

section \<open>Data model of package metrics\<close>

text \<open>
  The Go type \<open>int64\<close> is modelled by \<open>int\<close> with the two's-complement wrap-around
  written out in \<open>wrap64\<close>. The embedded \<open>*sync.Mutex\<close> of the three metric structs is
  left out of the sequential model: every method is one function from the state to the
  new state. A run-time panic of the Go code is the \<open>Inl\<close> branch of a sum.
\<close>

subsection \<open>float64\<close>

text \<open>
  A finite \<open>float64\<close> is the real number it denotes, and every arithmetic operation of
  the source is the exact operation followed by \<open>round64\<close>, the rounding of IEEE 754
  binary64: to the nearest representable number, ties to the even significand, with
  53 bits of significand and gradual underflow below \<open>2^-1022\<close>. \<open>is_float64 x\<close> says
  that \<open>x\<close> is representable. Every operation is rounded on its own, as in the default
  build for amd64 (Go lets a compiler fuse \<open>x*y + z\<close> into one rounding on other
  targets). There is no NaN and no infinity in the model: a statement that depends on
  the value of an operation carries the hypothesis that keeps its results within the
  finite range, \<open>max_float64\<close> at most in magnitude.
\<close>

text \<open>
  \<open>rne y\<close> is the integer nearest to \<open>y\<close>, the even one of two equally near.
  \<open>exponent64 x\<close> is the binary exponent of \<open>x\<close>, the \<open>e\<close> with \<open>2^e \<le> |x| < 2^(e+1)\<close>, and
  \<open>-1022\<close> for the subnormal numbers below. \<open>ulp64 x\<close> is the spacing \<open>2^(e - 52)\<close> of the
  float64 numbers around \<open>x\<close>, and \<open>round64 x\<close> the multiple of that spacing nearest to
  \<open>x\<close>.
\<close>

definition rne :: "real \<Rightarrow> int" where
  "rne y = (let f = \<lfloor>y\<rfloor>; d = y - of_int f
            in if d < 1 / 2 then f else if d > 1 / 2 then f + 1
               else if even f then f else f + 1)"

definition exponent64 :: "real \<Rightarrow> int" where
  "exponent64 x = max (- 1022) \<lfloor>log 2 \<bar>x\<bar>\<rfloor>"

definition ulp64 :: "real \<Rightarrow> real" where
  "ulp64 x = 2 powi (exponent64 x - 52)"

definition round64 :: "real \<Rightarrow> real" where
  "round64 x = of_int (rne (x / ulp64 x)) * ulp64 x"

definition is_float64 :: "real \<Rightarrow> bool" where
  "is_float64 x \<longleftrightarrow> round64 x = x"

definition max_float64 :: real where
  "max_float64 = 2 ^ 1024 - 2 ^ 971"

definition fadd :: "real \<Rightarrow> real \<Rightarrow> real" where
  "fadd x y = round64 (x + y)"

definition fsub :: "real \<Rightarrow> real \<Rightarrow> real" where
  "fsub x y = round64 (x - y)"

definition fmul :: "real \<Rightarrow> real \<Rightarrow> real" where
  "fmul x y = round64 (x * y)"

text \<open>The conversion \<open>float64(k)\<close> of an integer, and the constant \<open>1 / 3.0\<close>.\<close>

definition float64_of_int :: "int \<Rightarrow> real" where
  "float64_of_int k = round64 (of_int k)"

definition third :: real where
  "third = round64 (1 / 3)"

text \<open>
  The rank written \<open>0.90\<close> in the tests' \<open>p90Config\<close> is the float64 nearest to nine
  tenths.
\<close>

definition rank_0_9 :: real where
  "rank_0_9 = 8106479329266893 / 9007199254740992"

subsection \<open>Structs\<close>

datatype panic = IndexOutOfRange | InvalidArgument

definition wrap64 :: "int \<Rightarrow> int" where
  "wrap64 x = (x + 2 ^ 63) mod 2 ^ 64 - 2 ^ 63"

definition defaultSampleSize :: int where
  "defaultSampleSize = 2000"

record Config =
  cfg_Percentiles :: "real list"

text \<open>
  \<open>snap_Percentile\<close> is \<open>None\<close> for Go's nil map and \<open>Some m\<close> for an allocated map.
\<close>

record Snapshot =
  snap_N :: int
  snap_Sum :: real
  snap_Min :: real
  snap_Max :: real
  snap_Percentile :: "(real \<rightharpoonup> real) option"
  snap_Last :: real

definition zeroSnapshot :: Snapshot where
  "zeroSnapshot = \<lparr>snap_N = 0, snap_Sum = 0, snap_Min = 0, snap_Max = 0,
     snap_Percentile = None, snap_Last = 0\<rparr>"

record randomSample =
  rs_sampleSize :: int
  rs_n :: int
  rs_sum :: real
  rs_max :: real
  rs_values :: "real list"

record Counter =
  c_n :: int
  c_sum :: int

record Gauge =
  g_percentiles :: "real list"
  g_resv :: randomSample
  g_last :: real

record Histogram =
  h_percentiles :: "real list"
  h_resv :: randomSample

section \<open>Vitter's algorithm R\<close>

definition newRandomSample :: "int \<Rightarrow> randomSample" where
  "newRandomSample size' =
     \<lparr>rs_sampleSize = size', rs_n = 0, rs_sum = 0, rs_max = 0, rs_values = []\<rparr>"

text \<open>
  \<open>rand.Int63n(n)\<close> panics when \<open>n \<le> 0\<close> and otherwise returns some number of
  \<open>[0, n)\<close>. The random source is the argument \<open>seed\<close>: every number of \<open>[0, n)\<close> is
  \<open>seed mod n\<close> for some seed, so a statement for all seeds is a statement for every
  outcome of the draw.
\<close>

definition Int63n :: "nat \<Rightarrow> int \<Rightarrow> panic + int" where
  "Int63n seed n = (if n \<le> 0 then Inl InvalidArgument else Inr (int seed mod n))"

definition randomSample_record :: "real \<Rightarrow> nat \<Rightarrow> randomSample \<Rightarrow> panic + randomSample" where
  "randomSample_record v seed s =
     (let s1 = s\<lparr>rs_n := wrap64 (rs_n s + 1)\<rparr>;
          s2 = s1\<lparr>rs_sum := fadd (rs_sum s1) v\<rparr>;
          upd_max = (\<lambda>t. if v > rs_max t then t\<lparr>rs_max := v\<rparr> else t)
      in if int (length (rs_values s2)) < rs_sampleSize s2
         then Inr (upd_max (s2\<lparr>rs_values := rs_values s2 @ [v]\<rparr>))
         else (case Int63n seed (rs_n s2) of
                 Inl e \<Rightarrow> Inl e
               | Inr r \<Rightarrow>
                   if r < int (length (rs_values s2))
                   then Inr (upd_max (s2\<lparr>rs_values := (rs_values s2)[nat r := v]\<rparr>))
                   else Inr (upd_max s2)))"

definition randomSample_reset :: "randomSample \<Rightarrow> randomSample" where
  "randomSample_reset s = s\<lparr>rs_n := 0, rs_sum := 0, rs_max := 0, rs_values := []\<rparr>"

section \<open>Percentiles\<close>

text \<open>
  \<open>go_int\<close> is the conversion \<open>int(x)\<close> of a float: truncation toward zero.
  \<open>Ceil\<close> and \<open>Modf\<close> are the functions of package math; both are exact, their results
  are representable. \<open>at_index values i\<close> is the slice access \<open>values[i]\<close>, which panics
  out of range.
\<close>

definition go_int :: "real \<Rightarrow> int" where
  "go_int x = (if 0 \<le> x then \<lfloor>x\<rfloor> else \<lceil>x\<rceil>)"

definition Ceil :: "real \<Rightarrow> real" where
  "Ceil x = of_int \<lceil>x\<rceil>"

definition Modf :: "real \<Rightarrow> real \<times> real" where
  "Modf x = (of_int (go_int x), x - of_int (go_int x))"

definition at_index :: "real list \<Rightarrow> int \<Rightarrow> panic + real" where
  "at_index values i =
     (if 0 \<le> i \<and> i < int (length values) then Inr (values ! nat i) else Inl IndexOutOfRange)"

text \<open>The body of the first loop of \<open>percentiles\<close>: nearest rank.\<close>

definition nearestRank :: "real list \<Rightarrow> real \<Rightarrow> panic + real" where
  "nearestRank values p =
     (let n = float64_of_int (int (length values));
          i = go_int (Ceil (fmul p n))
      in at_index values (i - 1))"

text \<open>The body of the second loop of \<open>percentiles\<close>: definition 8 of Hyndman and Fan.\<close>

definition R8 :: "real list \<Rightarrow> real \<Rightarrow> panic + real" where
  "R8 values p =
     (let n = float64_of_int (int (length values));
          i = fadd (fmul p (fadd n third)) third
      in if i < 1 then at_index values 0
         else if i \<ge> n then at_index values (go_int n - 1)
         else (case Modf i of (k, f) \<Rightarrow>
                 (case at_index values (go_int k - 1) of
                    Inl e \<Rightarrow> Inl e
                  | Inr lower \<Rightarrow>
                      (case at_index values (go_int k) of
                         Inl e \<Rightarrow> Inl e
                       | Inr upper \<Rightarrow> Inr (fadd lower (fmul f (fsub upper lower)))))))"

text \<open>
  \<open>for _, p := range percentiles { scores[p] = body p }\<close>: the ranks in order, the first
  panic ends the loop.
\<close>

fun assign_scores ::
  "(real \<Rightarrow> panic + real) \<Rightarrow> real list \<Rightarrow> (real \<rightharpoonup> real) \<Rightarrow> panic + (real \<rightharpoonup> real)" where
  "assign_scores body [] scores = Inr scores"
| "assign_scores body (p # ps) scores =
     (case body p of
        Inl e \<Rightarrow> Inl e
      | Inr v \<Rightarrow> assign_scores body ps (scores(p \<mapsto> v)))"

definition percentiles :: "real list \<Rightarrow> real list \<Rightarrow> int \<Rightarrow> panic + (real \<rightharpoonup> real)" where
  "percentiles ps values sampleSize =
     (let scores = Map.empty;
          n = float64_of_int (int (length values))
      in if n = 0 \<or> length ps = 0 then Inr scores
         else if go_int n \<ge> sampleSize then assign_scores (nearestRank values) ps scores
         else assign_scores (R8 values) ps scores)"

section \<open>Snapshot finalization, shared by Gauge and Histogram\<close>

text \<open>
  \<open>finalizeSnapshot\<close> fills the snapshot and returns it with the sampler. With \<open>reset\<close>
  the live slice is sorted in place and the sampler is reset before the percentiles are
  computed; without it a copy is sorted and the sampler is untouched.
\<close>

definition finalizeSnapshot ::
  "Snapshot \<Rightarrow> randomSample \<Rightarrow> real list \<Rightarrow> bool \<Rightarrow> panic + (Snapshot \<times> randomSample)" where
  "finalizeSnapshot snapshot resv p reset =
     (if length (rs_values resv) = 0 then Inr (snapshot, resv)
      else
        let snapshot1 = snapshot\<lparr>snap_N := rs_n resv, snap_Sum := rs_sum resv,
                                  snap_Max := rs_max resv\<rparr>
        in if reset then
             (let resv1 = resv\<lparr>rs_values := sort (rs_values resv)\<rparr>;
                  values = rs_values resv1;
                  snapshot2 = snapshot1\<lparr>snap_Min := values ! 0\<rparr>;
                  resv2 = randomSample_reset resv1
              in case percentiles p values (rs_sampleSize resv2) of
                   Inl e \<Rightarrow> Inl e
                 | Inr scores \<Rightarrow> Inr (snapshot2\<lparr>snap_Percentile := Some scores\<rparr>, resv2))
           else
             (let values = sort (rs_values resv);
                  snapshot2 = snapshot1\<lparr>snap_Min := values ! 0\<rparr>
              in case percentiles p values (rs_sampleSize resv) of
                   Inl e \<Rightarrow> Inl e
                 | Inr scores \<Rightarrow> Inr (snapshot2\<lparr>snap_Percentile := Some scores\<rparr>, resv)))"

section \<open>Counter\<close>

definition NewCounter :: Counter where
  "NewCounter = \<lparr>c_n = 0, c_sum = 0\<rparr>"

text \<open>\<open>atomic.AddInt64(addr, delta)\<close> on each of the two fields.\<close>

definition atomic_AddInt64_n :: "int \<Rightarrow> Counter \<Rightarrow> Counter" where
  "atomic_AddInt64_n delta c = c\<lparr>c_n := wrap64 (c_n c + delta)\<rparr>"

definition atomic_AddInt64_sum :: "int \<Rightarrow> Counter \<Rightarrow> Counter" where
  "atomic_AddInt64_sum delta c = c\<lparr>c_sum := wrap64 (c_sum c + delta)\<rparr>"

definition Counter_Add :: "int \<Rightarrow> Counter \<Rightarrow> Counter" where
  "Counter_Add delta c = atomic_AddInt64_sum delta (atomic_AddInt64_n 1 c)"

definition Counter_Count :: "Counter \<Rightarrow> int" where
  "Counter_Count c = c_sum c"

definition Counter_Snapshot :: "bool \<Rightarrow> Counter \<Rightarrow> Snapshot \<times> Counter" where
  "Counter_Snapshot reset c =
     (let snapshot = zeroSnapshot\<lparr>snap_N := c_n c, snap_Sum := float64_of_int (c_sum c)\<rparr>
      in if reset then (snapshot, c\<lparr>c_n := 0, c_sum := 0\<rparr>) else (snapshot, c))"

text \<open>
  The second version of the Counter in the repository takes the lock in \<open>Add\<close> and in
  \<open>Count\<close>; its \<open>Snapshot\<close> has the same text as the one above.
\<close>

definition Counter_Add_mutex :: "int \<Rightarrow> Counter \<Rightarrow> Counter" where
  "Counter_Add_mutex delta c =
     (let c1 = c\<lparr>c_n := wrap64 (c_n c + 1)\<rparr>
      in c1\<lparr>c_sum := wrap64 (c_sum c1 + delta)\<rparr>)"

definition Counter_Count_mutex :: "Counter \<Rightarrow> int" where
  "Counter_Count_mutex c = (let cnt = c_sum c in cnt)"

definition Counter_Snapshot_mutex :: "bool \<Rightarrow> Counter \<Rightarrow> Snapshot \<times> Counter" where
  "Counter_Snapshot_mutex reset c =
     (let snapshot = zeroSnapshot\<lparr>snap_N := c_n c, snap_Sum := float64_of_int (c_sum c)\<rparr>
      in if reset then (snapshot, c\<lparr>c_n := 0, c_sum := 0\<rparr>) else (snapshot, c))"

section \<open>Gauge\<close>

definition NewGauge :: "Config \<Rightarrow> Gauge" where
  "NewGauge cfg = \<lparr>g_percentiles = cfg_Percentiles cfg,
     g_resv = newRandomSample defaultSampleSize, g_last = 0\<rparr>"

definition Gauge_Record :: "real \<Rightarrow> nat \<Rightarrow> Gauge \<Rightarrow> panic + Gauge" where
  "Gauge_Record v seed g =
     (let g1 = g\<lparr>g_last := v\<rparr>
      in case randomSample_record (g_last g1) seed (g_resv g1) of
           Inl e \<Rightarrow> Inl e
         | Inr r \<Rightarrow> Inr (g1\<lparr>g_resv := r\<rparr>))"

definition Gauge_Add :: "int \<Rightarrow> nat \<Rightarrow> Gauge \<Rightarrow> panic + Gauge" where
  "Gauge_Add delta seed g =
     (let g1 = g\<lparr>g_last := fadd (g_last g) (float64_of_int delta)\<rparr>
      in case randomSample_record (g_last g1) seed (g_resv g1) of
           Inl e \<Rightarrow> Inl e
         | Inr r \<Rightarrow> Inr (g1\<lparr>g_resv := r\<rparr>))"

definition Gauge_Last :: "Gauge \<Rightarrow> real" where
  "Gauge_Last g = g_last g"

definition Gauge_Snapshot :: "bool \<Rightarrow> Gauge \<Rightarrow> panic + (Snapshot \<times> Gauge)" where
  "Gauge_Snapshot reset g =
     (let snapshot = zeroSnapshot\<lparr>snap_Last := g_last g\<rparr>
      in case finalizeSnapshot snapshot (g_resv g) (g_percentiles g) reset of
           Inl e \<Rightarrow> Inl e
         | Inr (snapshot', resv') \<Rightarrow>
             (let g1 = g\<lparr>g_resv := resv'\<rparr>
              in if reset then Inr (snapshot', g1\<lparr>g_last := 0\<rparr>) else Inr (snapshot', g1)))"

section \<open>Histogram\<close>

definition NewHistogram :: "Config \<Rightarrow> Histogram" where
  "NewHistogram cfg = \<lparr>h_percentiles = cfg_Percentiles cfg,
     h_resv = newRandomSample defaultSampleSize\<rparr>"

definition Histogram_Record :: "real \<Rightarrow> nat \<Rightarrow> Histogram \<Rightarrow> panic + Histogram" where
  "Histogram_Record v seed h =
     (case randomSample_record v seed (h_resv h) of
        Inl e \<Rightarrow> Inl e
      | Inr r \<Rightarrow> Inr (h\<lparr>h_resv := r\<rparr>))"

definition Histogram_Snapshot :: "bool \<Rightarrow> Histogram \<Rightarrow> panic + (Snapshot \<times> Histogram)" where
  "Histogram_Snapshot reset h =
     (let snapshot = zeroSnapshot
      in case finalizeSnapshot snapshot (h_resv h) (h_percentiles h) reset of
           Inl e \<Rightarrow> Inl e
         | Inr (snapshot', resv') \<Rightarrow> Inr (snapshot', h\<lparr>h_resv := resv'\<rparr>))"

section \<open>Sequences of calls\<close>

text \<open>A run of \<open>record\<close> calls on one sampler, each value with the seed of its draw.\<close>

fun randomSample_records :: "(real \<times> nat) list \<Rightarrow> randomSample \<Rightarrow> panic + randomSample" where
  "randomSample_records [] s = Inr s"
| "randomSample_records ((v, seed) # rest) s =
     (case randomSample_record v seed s of
        Inl e \<Rightarrow> Inl e
      | Inr s' \<Rightarrow> randomSample_records rest s')"

fun Histogram_records :: "(real \<times> nat) list \<Rightarrow> Histogram \<Rightarrow> panic + Histogram" where
  "Histogram_records [] h = Inr h"
| "Histogram_records ((v, seed) # rest) h =
     (case Histogram_Record v seed h of
        Inl e \<Rightarrow> Inl e
      | Inr h' \<Rightarrow> Histogram_records rest h')"

text \<open>
  A Gauge receives values through \<open>Record\<close> and through \<open>Add\<close>; \<open>recorded last cs\<close> is the
  sequence of values the calls \<open>cs\<close> hand to the sampler when the Gauge's last value is
  \<open>last\<close> before the first call.
\<close>

datatype gauge_call = GRecord real | GAdd int

fun Gauge_call :: "gauge_call \<Rightarrow> nat \<Rightarrow> Gauge \<Rightarrow> panic + Gauge" where
  "Gauge_call (GRecord v) seed g = Gauge_Record v seed g"
| "Gauge_call (GAdd delta) seed g = Gauge_Add delta seed g"

fun Gauge_calls :: "(gauge_call \<times> nat) list \<Rightarrow> Gauge \<Rightarrow> panic + Gauge" where
  "Gauge_calls [] g = Inr g"
| "Gauge_calls ((c, seed) # rest) g =
     (case Gauge_call c seed g of
        Inl e \<Rightarrow> Inl e
      | Inr g' \<Rightarrow> Gauge_calls rest g')"

fun recorded :: "real \<Rightarrow> gauge_call list \<Rightarrow> real list" where
  "recorded last' [] = []"
| "recorded last' (GRecord v # cs) = v # recorded v cs"
| "recorded last' (GAdd delta # cs) =
     fadd last' (float64_of_int delta) # recorded (fadd last' (float64_of_int delta)) cs"

text \<open>Consecutive \<open>Snapshot\<close> calls with nothing in between, one reset flag per call.\<close>

fun Counter_Snapshots :: "bool list \<Rightarrow> Counter \<Rightarrow> Snapshot list" where
  "Counter_Snapshots [] c = []"
| "Counter_Snapshots (r # rs) c =
     (case Counter_Snapshot r c of (s, c') \<Rightarrow> s # Counter_Snapshots rs c')"

fun Gauge_Snapshots :: "bool list \<Rightarrow> Gauge \<Rightarrow> panic + Snapshot list" where
  "Gauge_Snapshots [] g = Inr []"
| "Gauge_Snapshots (r # rs) g =
     (case Gauge_Snapshot r g of
        Inl e \<Rightarrow> Inl e
      | Inr (s, g') \<Rightarrow>
          (case Gauge_Snapshots rs g' of Inl e \<Rightarrow> Inl e | Inr ss \<Rightarrow> Inr (s # ss)))"

fun Histogram_Snapshots :: "bool list \<Rightarrow> Histogram \<Rightarrow> panic + Snapshot list" where
  "Histogram_Snapshots [] h = Inr []"
| "Histogram_Snapshots (r # rs) h =
     (case Histogram_Snapshot r h of
        Inl e \<Rightarrow> Inl e
      | Inr (s, h') \<Rightarrow>
          (case Histogram_Snapshots rs h' of Inl e \<Rightarrow> Inl e | Inr ss \<Rightarrow> Inr (s # ss)))"

text \<open>The state predicate: an empty sample comes with zero count, sum, max and last.\<close>

definition randomSample_inv :: "randomSample \<Rightarrow> bool" where
  "randomSample_inv s \<longleftrightarrow> (rs_values s = [] \<longrightarrow> rs_n s = 0 \<and> rs_sum s = 0 \<and> rs_max s = 0)"

definition Gauge_inv :: "Gauge \<Rightarrow> bool" where
  "Gauge_inv g \<longleftrightarrow>
     (rs_values (g_resv g) = [] \<longrightarrow>
        rs_n (g_resv g) = 0 \<and> rs_sum (g_resv g) = 0 \<and> rs_max (g_resv g) = 0 \<and> g_last g = 0)"

definition Histogram_inv :: "Histogram \<Rightarrow> bool" where
  "Histogram_inv h \<longleftrightarrow> randomSample_inv (h_resv h)"

section \<open>The quantile estimator in the words of the specification\<close>

text \<open>
  The value the specification gives for one rank \<open>p\<close> over the sorted values, with its
  1-based ranks read as 0-based positions of the list. The ranks and values of the
  specification are floating-point numbers, so its products, sums and differences are
  the rounded ones; \<open>k = floor(pos)\<close> and \<open>f = pos - k\<close> are exact. Positions are natural
  numbers, so for \<open>p = 0\<close> the nearest-rank position \<open>0 - 1\<close> is \<open>0\<close>, the special case
  the specification asks for.
\<close>

definition spec_estimate :: "real \<Rightarrow> real list \<Rightarrow> int \<Rightarrow> real" where
  "spec_estimate p sortedValues capacity =
     (let n = length sortedValues
      in if int n \<ge> capacity then sortedValues ! (nat \<lceil>fmul p (real n)\<rceil> - 1)
         else
           let pos = fadd (fmul p (fadd (real n) third)) third
           in if pos < 1 then sortedValues ! 0
              else if pos \<ge> real n then sortedValues ! (n - 1)
              else
                let k = nat \<lfloor>pos\<rfloor>; f = pos - real k
                in fadd (sortedValues ! (k - 1))
                     (fmul f (fsub (sortedValues ! k) (sortedValues ! (k - 1)))))"

text \<open>
  The sums a run of \<open>record\<close> calls goes through stay within the finite range: no
  addition overflows to an infinity.
\<close>

definition sums_finite :: "real list \<Rightarrow> bool" where
  "sums_finite vs \<longleftrightarrow> (\<forall>k \<le> length vs. \<bar>foldl fadd 0 (take k vs)\<bar> \<le> max_float64)"

section \<open>The two Counter variants, called in sequence\<close>

datatype counter_call = CAdd int | CCount | CSnapshot bool

datatype counter_result = AddReturned | CountReturned int | SnapshotReturned Snapshot

fun Counter_call :: "counter_call \<Rightarrow> Counter \<Rightarrow> counter_result \<times> Counter" where
  "Counter_call (CAdd delta) c = (AddReturned, Counter_Add delta c)"
| "Counter_call CCount c = (CountReturned (Counter_Count c), c)"
| "Counter_call (CSnapshot reset) c =
     (case Counter_Snapshot reset c of (s, c') \<Rightarrow> (SnapshotReturned s, c'))"

fun Counter_call_mutex :: "counter_call \<Rightarrow> Counter \<Rightarrow> counter_result \<times> Counter" where
  "Counter_call_mutex (CAdd delta) c = (AddReturned, Counter_Add_mutex delta c)"
| "Counter_call_mutex CCount c = (CountReturned (Counter_Count_mutex c), c)"
| "Counter_call_mutex (CSnapshot reset) c =
     (case Counter_Snapshot_mutex reset c of (s, c') \<Rightarrow> (SnapshotReturned s, c'))"

fun Counter_calls :: "counter_call list \<Rightarrow> Counter \<Rightarrow> counter_result list" where
  "Counter_calls [] c = []"
| "Counter_calls (x # xs) c = (case Counter_call x c of (r, c') \<Rightarrow> r # Counter_calls xs c')"

fun Counter_calls_mutex :: "counter_call list \<Rightarrow> Counter \<Rightarrow> counter_result list" where
  "Counter_calls_mutex [] c = []"
| "Counter_calls_mutex (x # xs) c =
     (case Counter_call_mutex x c of (r, c') \<Rightarrow> r # Counter_calls_mutex xs c')"

section \<open>Interleaved callers of the atomic Counter\<close>

text \<open>
  \<open>Counter.Add\<close> takes no lock: it is two atomic additions, and another goroutine can run
  between them. \<open>Counter.Snapshot\<close> holds the mutex, which \<open>Add\<close> never takes, so its
  reads of the two fields and its writes of zero are not shielded from \<open>Add\<close>. The steps
  below are coarser than the machine's: the two reads are one step and the two writes
  are one step, so every schedule of the model is a schedule of the program. A schedule
  is an interleaving of the callers' step lists; the snapshot a caller gets back is the
  one built at its read step.
\<close>

datatype counter_step = StepAddN | StepAddSum int | StepSnapRead | StepSnapClear

fun Counter_step :: "counter_step \<Rightarrow> Counter \<times> Snapshot list \<Rightarrow> Counter \<times> Snapshot list" where
  "Counter_step StepAddN (c, out) = (atomic_AddInt64_n 1 c, out)"
| "Counter_step (StepAddSum delta) (c, out) = (atomic_AddInt64_sum delta c, out)"
| "Counter_step StepSnapRead (c, out) =
     (c, out @ [zeroSnapshot\<lparr>snap_N := c_n c, snap_Sum := float64_of_int (c_sum c)\<rparr>])"
| "Counter_step StepSnapClear (c, out) = (c\<lparr>c_n := 0, c_sum := 0\<rparr>, out)"

definition Add_steps :: "int \<Rightarrow> counter_step list" where
  "Add_steps delta = [StepAddN, StepAddSum delta]"

definition Snapshot_steps :: "bool \<Rightarrow> counter_step list" where
  "Snapshot_steps reset = (if reset then [StepSnapRead, StepSnapClear] else [StepSnapRead])"

fun interleavings :: "'a list \<Rightarrow> 'a list \<Rightarrow> 'a list list" where
  "interleavings [] ys = [ys]"
| "interleavings (x # xs) [] = [x # xs]"
| "interleavings (x # xs) (y # ys) =
     map ((#) x) (interleavings xs (y # ys)) @ map ((#) y) (interleavings (x # xs) ys)"

definition run_schedule :: "counter_step list \<Rightarrow> Counter \<Rightarrow> Counter \<times> Snapshot list" where
  "run_schedule sched c = fold Counter_step sched (c, [])"

section \<open>Rounding to float64\<close>

lemma rne_of_int [simp]: "rne (of_int k) = k"
  by (simp add: rne_def)

lemma rne_zero [simp]: "rne 0 = 0"
  using rne_of_int [of 0] by simp

lemma rne_bounds: "of_int (rne y) \<le> y + 1 / 2" "y - 1 / 2 \<le> of_int (rne y)"
  "\<lfloor>y\<rfloor> \<le> rne y" "rne y \<le> \<lfloor>y\<rfloor> + 1"
  by (auto simp: rne_def Let_def) linarith+

lemma rne_mono:
  assumes "y \<le> z"
  shows "rne y \<le> rne z"
proof (cases "\<lfloor>y\<rfloor> = \<lfloor>z\<rfloor>")
  case True
  have "y - of_int \<lfloor>y\<rfloor> \<le> z - of_int \<lfloor>y\<rfloor>" using assms by simp
  then show ?thesis using True by (auto simp: rne_def Let_def)
next
  case False
  have "\<lfloor>y\<rfloor> \<le> \<lfloor>z\<rfloor>" using assms by (rule floor_mono)
  then have "\<lfloor>y\<rfloor> + 1 \<le> \<lfloor>z\<rfloor>" using False by simp
  then show ?thesis using rne_bounds(4) [of y] rne_bounds(3) [of z] by linarith
qed

lemma ulp64_pos [simp]: "0 < ulp64 x"
  by (simp add: ulp64_def)

lemma round64_zero [simp]: "round64 0 = 0"
  by (simp add: round64_def)

lemma exponent64_ge: "- 1022 \<le> exponent64 x"
  by (simp add: exponent64_def)

lemma exponent64_upper:
  assumes "x \<noteq> 0"
  shows "\<bar>x\<bar> < 2 powi (exponent64 x + 1)"
proof -
  have p: "0 < \<bar>x\<bar>" using assms by simp
  define k where "k = \<lfloor>log 2 \<bar>x\<bar>\<rfloor>"
  have "\<bar>x\<bar> < 2 powr (k + 1)"
    using floor_log_eq_powr_iff [OF p, of 2 k] by (simp add: k_def)
  also have "\<dots> = 2 powi (k + 1)"
    using powr_real_of_int' [of 2 "k + 1"] by simp
  also have "\<dots> \<le> 2 powi (exponent64 x + 1)"
    by (intro power_int_increasing) (simp_all add: exponent64_def k_def)
  finally show ?thesis .
qed

lemma exponent64_lower:
  assumes "x \<noteq> 0" and "- 1022 < exponent64 x"
  shows "2 powi exponent64 x \<le> \<bar>x\<bar>"
proof -
  have p: "0 < \<bar>x\<bar>" using assms by simp
  define k where "k = \<lfloor>log 2 \<bar>x\<bar>\<rfloor>"
  have e: "exponent64 x = k" using assms(2) by (simp add: exponent64_def k_def max_def split: if_splits)
  have "2 powr k \<le> \<bar>x\<bar>"
    using floor_log_eq_powr_iff [OF p, of 2 k] by (simp add: k_def)
  moreover have "2 powr k = (2::real) powi k"
    using powr_real_of_int' [of 2 k] by simp
  ultimately show ?thesis by (simp add: e)
qed

lemma exponent64_eqI:
  assumes "2 powi e \<le> \<bar>x\<bar>" and "\<bar>x\<bar> < 2 powi (e + 1)" and "- 1022 \<le> e"
  shows "exponent64 x = e"
proof -
  have p: "0 < \<bar>x\<bar>" using assms(1) by (smt (verit) zero_less_power_int)
  have "2 powr e = (2::real) powi e" "2 powr (e + 1) = (2::real) powi (e + 1)"
    using powr_real_of_int' [of 2 e] powr_real_of_int' [of 2 "e + 1"] by simp_all
  then have "\<lfloor>log 2 \<bar>x\<bar>\<rfloor> = e"
    using floor_log_eq_powr_iff [OF p, of 2 e] assms by simp
  then show ?thesis using assms(3) by (simp add: exponent64_def)
qed

lemma exponent64_subnormal:
  assumes "\<bar>x\<bar> < 2 powi (- 1022)" and "x \<noteq> 0"
  shows "exponent64 x = - 1022"
proof -
  have p: "0 < \<bar>x\<bar>" using assms by simp
  define k where "k = \<lfloor>log 2 \<bar>x\<bar>\<rfloor>"
  have "2 powr k \<le> \<bar>x\<bar>"
    using floor_log_eq_powr_iff [OF p, of 2 k] by (simp add: k_def)
  moreover have "2 powr k = (2::real) powi k"
    using powr_real_of_int' [of 2 k] by simp
  ultimately have "(2::real) powi k < 2 powi (- 1022)" using assms(1) by simp
  then have "k < - 1022"
    using power_int_increasing [of "- 1022" k "2::real"] by (cases "k < - 1022") auto
  then show ?thesis by (simp add: exponent64_def k_def)
qed

lemma ulp64_nonneg [simp]: "0 \<le> ulp64 x"
  using ulp64_pos [of x] by linarith

lemma ulp64_neq0 [simp]: "ulp64 x \<noteq> 0"
  using ulp64_pos [of x] by linarith

lemma rne_nonneg: "0 \<le> y \<Longrightarrow> 0 \<le> rne y"
  using rne_mono [of 0 y] by simp

lemma round64_nonneg:
  assumes "0 \<le> x"
  shows "0 \<le> round64 x"
proof -
  have "0 \<le> x / ulp64 x"
    using assms by (intro divide_nonneg_nonneg) (simp_all add: less_imp_le)
  then have "0 \<le> real_of_int (rne (x / ulp64 x))" using rne_nonneg by simp
  then show ?thesis unfolding round64_def by (intro mult_nonneg_nonneg) simp_all
qed

lemma round64_le_pow:
  assumes "0 < x"
  shows "round64 x \<le> 2 powi (exponent64 x + 1)"
proof -
  have "x < 2 powi (exponent64 x + 1)" using exponent64_upper [of x] assms by simp
  also have "\<dots> = 2 ^ 53 * ulp64 x"
    by (simp add: ulp64_def power_int_diff power_int_add)
  finally have "x / ulp64 x \<le> of_int (2 ^ 53)"
    by (simp add: pos_divide_le_eq)
  from rne_mono [OF this] have "rne (x / ulp64 x) \<le> 2 ^ 53" by (simp only: rne_of_int)
  then have "real_of_int (rne (x / ulp64 x)) \<le> real_of_int (2 ^ 53)"
    by (simp only: of_int_le_iff)
  then have "real_of_int (rne (x / ulp64 x)) \<le> 2 ^ 53" by simp
  then have "round64 x \<le> 2 ^ 53 * ulp64 x"
    by (simp add: round64_def)
  also have "\<dots> = 2 powi (exponent64 x + 1)"
    by (simp add: ulp64_def power_int_diff power_int_add)
  finally show ?thesis .
qed

lemma round64_ge_pow:
  assumes "0 < x" and "- 1022 < exponent64 x"
  shows "2 powi exponent64 x \<le> round64 x"
proof -
  have "2 powi exponent64 x \<le> x" using exponent64_lower [of x] assms by simp
  moreover have "2 powi exponent64 x = 2 ^ 52 * ulp64 x"
    by (simp add: ulp64_def power_int_diff)
  ultimately have "of_int (2 ^ 52) \<le> x / ulp64 x"
    by (simp add: pos_le_divide_eq)
  from rne_mono [OF this] have "2 ^ 52 \<le> rne (x / ulp64 x)" by (simp only: rne_of_int)
  then have "real_of_int (2 ^ 52) \<le> real_of_int (rne (x / ulp64 x))"
    by (simp only: of_int_le_iff)
  then have "2 ^ 52 \<le> real_of_int (rne (x / ulp64 x))" by simp
  then have "2 ^ 52 * ulp64 x \<le> round64 x"
    by (simp add: round64_def)
  also have "2 ^ 52 * ulp64 x = 2 powi exponent64 x"
    by (simp add: ulp64_def power_int_diff)
  finally show ?thesis .
qed

lemma exponent64_mono:
  assumes "0 < x" and "x \<le> y"
  shows "exponent64 x \<le> exponent64 y"
proof -
  have "log 2 \<bar>x\<bar> \<le> log 2 \<bar>y\<bar>" using assms by simp
  then have "\<lfloor>log 2 \<bar>x\<bar>\<rfloor> \<le> \<lfloor>log 2 \<bar>y\<bar>\<rfloor>" by (rule floor_mono)
  then show ?thesis by (simp add: exponent64_def)
qed

lemma round64_mono:
  assumes "0 \<le> x" and "x \<le> y"
  shows "round64 x \<le> round64 y"
proof (cases "x = 0")
  case True
  then show ?thesis using assms round64_nonneg [of y] by simp
next
  case False
  then have x: "0 < x" and y: "0 < y" using assms by simp_all
  have le: "exponent64 x \<le> exponent64 y" using exponent64_mono [OF x assms(2)] .
  show ?thesis
  proof (cases "exponent64 x = exponent64 y")
    case True
    then have u: "ulp64 x = ulp64 y" by (simp add: ulp64_def)
    have "x / ulp64 y \<le> y / ulp64 y"
      using assms(2) by (intro divide_right_mono) (simp_all add: less_imp_le)
    from rne_mono [OF this] show ?thesis by (simp add: round64_def u)
  next
    case False
    then have lt: "exponent64 x + 1 \<le> exponent64 y" using le by simp
    have "- 1022 < exponent64 y" using lt exponent64_ge [of x] by linarith
    from round64_ge_pow [OF y this] have "2 powi exponent64 y \<le> round64 y" .
    moreover have "(2::real) powi (exponent64 x + 1) \<le> 2 powi exponent64 y"
      using lt by (intro power_int_increasing) simp_all
    ultimately show ?thesis using round64_le_pow [OF x] by linarith
  qed
qed

lemma round64_representable:
  assumes "\<bar>m\<bar> < 2 ^ 53" and "- 1074 \<le> e"
  shows "round64 (of_int m * 2 powi e) = of_int m * 2 powi e"
proof (cases "m = 0")
  case True
  then show ?thesis by simp
next
  case False
  define x :: real where "x = of_int m * 2 powi e"
  have x0: "x \<noteq> 0" using False by (simp add: x_def)
  have ax: "\<bar>x\<bar> = of_int \<bar>m\<bar> * 2 powi e" by (simp add: x_def abs_mult)
  have d: "0 \<le> e - exponent64 x + 52"
  proof (cases "exponent64 x = - 1022")
    case True
    then show ?thesis using assms(2) by simp
  next
    case False
    then have g: "- 1022 < exponent64 x" using exponent64_ge [of x] by linarith
    have "2 powi exponent64 x \<le> \<bar>x\<bar>" using exponent64_lower [OF x0 g] .
    also have "\<bar>x\<bar> < 2 ^ 53 * 2 powi e"
    proof -
      have "real_of_int \<bar>m\<bar> < real_of_int (2 ^ 53)"
        using assms(1) by (simp only: of_int_less_iff)
      then have "real_of_int \<bar>m\<bar> < 2 ^ 53" by simp
      then show ?thesis unfolding ax by (simp add: mult_strict_right_mono)
    qed
    also have "\<dots> = 2 powi (e + 53)" by (simp add: power_int_add)
    finally have "exponent64 x < e + 53"
      using power_int_increasing [of "e + 53" "exponent64 x" "2::real"]
      by (cases "exponent64 x < e + 53") auto
    then show ?thesis by simp
  qed
  define k where "k = nat (e - exponent64 x + 52)"
  have "x / ulp64 x = of_int m * 2 powi (e - (exponent64 x - 52))"
    by (simp add: x_def ulp64_def power_int_diff)
  also have "e - (exponent64 x - 52) = int k" using d by (simp add: k_def)
  finally have q: "x / ulp64 x = of_int (m * 2 ^ k)" by simp
  have "round64 x = of_int (m * 2 ^ k) * ulp64 x"
    unfolding round64_def q rne_of_int ..
  also have "\<dots> = (x / ulp64 x) * ulp64 x" by (simp only: q)
  also have "\<dots> = x" using ulp64_pos [of x] by simp
  finally show ?thesis by (simp only: x_def)
qed

lemma round64_of_int:
  assumes "\<bar>k\<bar> < 2 ^ 53"
  shows "round64 (of_int k) = of_int k"
proof -
  have "round64 (of_int k * 2 powi 0) = of_int k * 2 powi 0"
    by (rule round64_representable [OF assms]) simp
  then show ?thesis by (simp only: power_int_0_right mult_1_right)
qed

lemma round64_of_nat:
  assumes "n < 2 ^ 53"
  shows "round64 (real n) = real n"
proof -
  have "int n < int (2 ^ 53)" using assms by (simp only: of_nat_less_iff)
  then have "\<bar>int n\<bar> < 2 ^ 53" by simp
  from round64_of_int [OF this] show ?thesis by simp
qed

lemma round64_eval:
  assumes "2 powi e \<le> \<bar>x\<bar>" and "\<bar>x\<bar> < 2 powi (e + 1)" and "- 1022 \<le> e"
  shows "round64 x = of_int (rne (x / 2 powi (e - 52))) * 2 powi (e - 52)"
  by (simp add: round64_def ulp64_def exponent64_eqI [OF assms])

lemma round64_grid: "\<exists>k. round64 x = of_int k * 2 powi (- 1074)"
proof -
  define t :: real where "t = 2 powi (- 1074)"
  define j where "j = nat (exponent64 x + 1022)"
  have "exponent64 x - 52 = int j + (- 1074)" using exponent64_ge [of x] by (simp add: j_def)
  then have "ulp64 x = 2 powi (int j + (- 1074))" by (simp only: ulp64_def)
  also have "\<dots> = 2 powi int j * t" unfolding t_def by (rule power_int_add) simp
  finally have "ulp64 x = 2 ^ j * t" by simp
  then have "round64 x = of_int (rne (x / ulp64 x) * 2 ^ j) * t"
    by (simp add: round64_def)
  then show ?thesis unfolding t_def by blast
qed

lemma float_pos_ge_min:
  assumes "round64 p = p" and "0 < p"
  shows "2 powi (- 1074) \<le> p"
proof -
  define t :: real where "t = 2 powi (- 1074)"
  have t: "0 < t" by (simp add: t_def)
  obtain k where k: "p = of_int k * t" using round64_grid [of p] assms(1) by (auto simp: t_def)
  have "0 < real_of_int k" using assms(2) k t by (simp add: zero_less_mult_iff)
  then have "0 < k" by (simp only: of_int_0_less_iff)
  then have "1 \<le> k" by simp
  then have "real_of_int 1 \<le> real_of_int k" by (simp only: of_int_le_iff)
  then have "1 \<le> real_of_int k" by simp
  then have "1 * t \<le> real_of_int k * t" using t by (intro mult_right_mono) simp_all
  then show ?thesis using k by (simp add: t_def)
qed

lemma round64_product_pos:
  assumes "round64 p = p" and "0 < p" and "1 \<le> n"
  shows "0 < round64 (p * n)"
proof -
  define t :: real where "t = 2 powi (- 1074)"
  have t: "0 < t" by (simp add: t_def)
  have "t \<le> p" using float_pos_ge_min [OF assms(1,2)] by (simp add: t_def)
  also have "p \<le> p * n" using assms(2,3) by simp
  finally have le: "t \<le> p * n" .
  have "round64 (of_int 1 * 2 powi (- 1074)) = of_int 1 * 2 powi (- 1074)"
    by (rule round64_representable) simp_all
  then have r: "round64 t = t" by (simp add: t_def)
  have "round64 t \<le> round64 (p * n)"
    using t le by (intro round64_mono) simp_all
  then show ?thesis using r t by linarith
qed

lemma rne_minus: "rne (- y) = - rne y"
proof (cases "y = of_int \<lfloor>y\<rfloor>")
  case True
  then obtain k where "y = of_int k" by metis
  then show ?thesis using rne_of_int [of "- k"] by simp
next
  case False
  have c: "\<lceil>y\<rceil> = \<lfloor>y\<rfloor> + 1" using False by (simp add: ceiling_altdef)
  have f: "\<lfloor>- y\<rfloor> = - \<lfloor>y\<rfloor> - 1" using c by (simp add: floor_minus)
  show ?thesis unfolding rne_def Let_def f by (auto simp: field_simps)
qed

lemma round64_minus: "round64 (- x) = - round64 x"
proof -
  have "exponent64 (- x) = exponent64 x" by (simp add: exponent64_def)
  then have u: "ulp64 (- x) = ulp64 x" by (simp add: ulp64_def)
  show ?thesis by (simp add: round64_def u rne_minus)
qed

lemma round64_abs_le:
  assumes "\<bar>x\<bar> \<le> b" and "round64 b = b"
  shows "\<bar>round64 x\<bar> \<le> b"
proof (cases "0 \<le> x")
  case True
  then have "round64 x \<le> round64 b" using assms(1) by (intro round64_mono) simp_all
  then show ?thesis using round64_nonneg [OF True] assms(2) by simp
next
  case False
  then have n: "0 \<le> - x" by simp
  have "round64 (- x) \<le> round64 b" using assms(1) n by (intro round64_mono) simp_all
  then show ?thesis using round64_nonneg [OF n] assms(2) by (simp add: round64_minus)
qed

lemma round64_pow2: "round64 (of_int m * 2 ^ k) = of_int m * 2 ^ k" if "\<bar>m\<bar> < 2 ^ 53"
proof -
  have "round64 (of_int m * 2 powi int k) = of_int m * 2 powi int k"
    using that by (intro round64_representable) simp_all
  then show ?thesis by (simp only: power_int_of_nat)
qed

lemma round64_evalI:
  assumes "2 powi e \<le> \<bar>x\<bar>" and "\<bar>x\<bar> < 2 powi (e + 1)" and "- 1022 \<le> e"
    and "rne (x / 2 powi (e - 52)) = m" and "of_int m * 2 powi (e - 52) = y"
  shows "round64 x = y"
  using round64_eval [OF assms(1-3)] assms(4,5) by simp

lemma float64_of_int_small:
  assumes "\<bar>k\<bar> < 2 ^ 53"
  shows "float64_of_int k = of_int k"
  unfolding float64_of_int_def using assms by (rule round64_of_int)

lemma float64_of_int_0 [simp]: "float64_of_int 0 = 0"
  by (simp add: float64_of_int_def)

lemma float64_of_nat:
  assumes "n < 2 ^ 53"
  shows "float64_of_int (int n) = real n"
  using round64_of_nat [OF assms] by (simp add: float64_of_int_def)

lemma fmul_zero [simp]: "fmul 0 x = 0"
  by (simp add: fmul_def)

lemma is_float64_representable:
  assumes "\<bar>m\<bar> < 2 ^ 53" and "- 1074 \<le> e"
  shows "is_float64 (of_int m * 2 powi e)"
  unfolding is_float64_def using assms by (rule round64_representable)

lemma is_float64_ratio:
  assumes "\<bar>m\<bar> < 2 ^ 53" and "k \<le> 1074"
  shows "is_float64 (of_int m / 2 ^ k)"
proof -
  have "is_float64 (of_int m * 2 powi (- int k))"
    using assms by (intro is_float64_representable) simp_all
  moreover have "(2::real) powi (- int k) = inverse (2 ^ k)"
    by (simp only: power_int_minus power_int_of_nat)
  ultimately show ?thesis by (simp only: divide_inverse)
qed

lemma is_float64_half: "is_float64 (1 / 2)"
  using is_float64_ratio [of 1 1] by simp

lemma is_float64_of_nat: "n < 2 ^ 53 \<Longrightarrow> is_float64 (real n)"
  unfolding is_float64_def by (rule round64_of_nat)


section \<open>Arithmetic of the model\<close>

lemma go_int_of_nat: "go_int (real k) = int k"
  by (simp add: go_int_def)

lemma go_int_of_int: "go_int (of_int k) = k"
  by (simp add: go_int_def)

lemma wrap64_id: "- (2^63) \<le> x \<Longrightarrow> x < 2^63 \<Longrightarrow> wrap64 x = x"
  by (simp add: wrap64_def)

lemma rank_bounds:
  assumes "is_float64 p" and "0 < p" and "p \<le> 1" and "0 < n" and "n < 2 ^ 53"
  shows "1 \<le> \<lceil>fmul p (real n)\<rceil> \<and> \<lceil>fmul p (real n)\<rceil> \<le> int n"
proof
  have "0 < fmul p (real n)"
    unfolding fmul_def using assms by (intro round64_product_pos) (simp_all add: is_float64_def)
  then show "1 \<le> \<lceil>fmul p (real n)\<rceil>" by (simp add: less_ceiling_iff [symmetric])
  have "p * real n \<le> real n" using assms by (simp add: mult_left_le_one_le)
  then have "round64 (p * real n) \<le> round64 (real n)"
    using assms by (intro round64_mono) simp_all
  then have "fmul p (real n) \<le> real n"
    using round64_of_nat [OF assms(5)] by (simp add: fmul_def)
  then show "\<lceil>fmul p (real n)\<rceil> \<le> int n" by (simp add: ceiling_le_iff)
qed

lemma nearestRank_value:
  assumes "is_float64 p" and "0 < p" and "p \<le> 1" and "values \<noteq> []"
    and "length values < 2 ^ 53"
  shows "nearestRank values p =
           Inr (values ! (nat \<lceil>fmul p (real (length values))\<rceil> - 1))"
proof -
  have b: "1 \<le> \<lceil>fmul p (real (length values))\<rceil>
      \<and> \<lceil>fmul p (real (length values))\<rceil> \<le> int (length values)"
    using assms by (intro rank_bounds) auto
  have e: "nat (\<lceil>fmul p (real (length values))\<rceil> - 1)
      = nat \<lceil>fmul p (real (length values))\<rceil> - 1"
    by (simp add: nat_diff_distrib')
  show ?thesis using b
    by (simp add: nearestRank_def Ceil_def go_int_of_int at_index_def e
        float64_of_nat [OF assms(5)] del: ceiling_le_iff)
qed

lemma floor_pos_bounds:
  assumes "1 \<le> pos" "pos < real n"
  shows "0 \<le> \<lfloor>pos\<rfloor> - 1 \<and> \<lfloor>pos\<rfloor> - 1 < int n \<and> 0 \<le> \<lfloor>pos\<rfloor> \<and> \<lfloor>pos\<rfloor> < int n"
proof -
  have "1 \<le> \<lfloor>pos\<rfloor>" using assms by (simp add: le_floor_iff)
  moreover have "\<lfloor>pos\<rfloor> < int n" using assms by (simp add: floor_less_iff)
  ultimately show ?thesis by simp
qed

lemma R8_value:
  assumes "values \<noteq> []" and "length values < 2 ^ 53"
  shows "R8 values p =
     Inr (let n = length values; pos = fadd (fmul p (fadd (real n) third)) third
          in if pos < 1 then values ! 0
             else if pos \<ge> real n then values ! (n - 1)
             else let k = nat \<lfloor>pos\<rfloor>; f = pos - real k
                  in fadd (values ! (k - 1)) (fmul f (fsub (values ! k) (values ! (k - 1)))))"
proof -
  define n where "n = length values"
  define pos where "pos = fadd (fmul p (fadd (real n) third)) third"
  have n0: "0 < n" using assms by (simp add: n_def)
  have fn: "float64_of_int (int n) = real n"
    using float64_of_nat [OF assms(2)] by (simp add: n_def)
  consider "pos < 1" | "1 \<le> pos" "real n \<le> pos" | "1 \<le> pos" "pos < real n" by linarith
  then show ?thesis
  proof cases
    case 1
    then show ?thesis using n0
      by (simp add: R8_def at_index_def n_def [symmetric] fn pos_def [symmetric] Let_def)
  next
    case 2
    then show ?thesis using n0
      by (simp add: R8_def at_index_def go_int_of_nat n_def [symmetric] fn pos_def [symmetric]
          Let_def nat_diff_distrib')
  next
    case 3
    have b: "0 \<le> \<lfloor>pos\<rfloor> - 1 \<and> \<lfloor>pos\<rfloor> - 1 < int n \<and> 0 \<le> \<lfloor>pos\<rfloor> \<and> \<lfloor>pos\<rfloor> < int n"
      using 3 by (rule floor_pos_bounds)
    have g: "go_int pos = \<lfloor>pos\<rfloor>" using 3 by (simp add: go_int_def)
    have e: "nat (\<lfloor>pos\<rfloor> - 1) = nat \<lfloor>pos\<rfloor> - 1" by (simp add: nat_diff_distrib')
    have r: "real (nat \<lfloor>pos\<rfloor>) = of_int \<lfloor>pos\<rfloor>" using b by simp
    show ?thesis using 3 b
      by (simp add: R8_def Modf_def at_index_def go_int_of_int g e r n_def [symmetric] fn
          pos_def [symmetric] Let_def)
  qed
qed

lemma assign_scores_ok:
  assumes "\<forall>p\<in>set ps. body p = Inr (val p)"
  shows "assign_scores body ps scores = Inr (\<lambda>q. if q \<in> set ps then Some (val q) else scores q)"
  using assms
proof (induction ps arbitrary: scores)
  case Nil
  then show ?case by simp
next
  case (Cons p ps)
  have "assign_scores body (p # ps) scores = assign_scores body ps (scores(p \<mapsto> val p))"
    using Cons.prems by simp
  also have "\<dots> = Inr (\<lambda>q. if q \<in> set ps then Some (val q) else (scores(p \<mapsto> val p)) q)"
    using Cons.prems by (intro Cons.IH) simp
  also have "(\<lambda>q. if q \<in> set ps then Some (val q) else (scores(p \<mapsto> val p)) q)
           = (\<lambda>q. if q \<in> set (p # ps) then Some (val q) else scores q)"
    by (auto simp: fun_eq_iff)
  finally show ?case .
qed

section \<open>The quantile estimator\<close>

lemma percentiles_value:
  assumes "values \<noteq> []" and "length values < 2 ^ 53"
    and "\<forall>p\<in>set ps. is_float64 p \<and> 0 < p \<and> p \<le> 1"
  shows "percentiles ps values capacity =
           Inr (\<lambda>q. if q \<in> set ps then Some (spec_estimate q values capacity) else None)"
proof -
  have fn: "float64_of_int (int (length values)) = real (length values)"
    using float64_of_nat [OF assms(2)] .
  show ?thesis
  proof (cases "int (length values) \<ge> capacity")
    case True
    have "\<forall>p\<in>set ps. nearestRank values p = Inr (spec_estimate p values capacity)"
      using assms True by (simp add: nearestRank_value spec_estimate_def)
    from assign_scores_ok [OF this, of Map.empty] show ?thesis
      using True assms(1)
      by (cases ps) (simp_all add: percentiles_def fn go_int_of_nat fun_eq_iff)
  next
    case False
    have "\<forall>p\<in>set ps. R8 values p = Inr (spec_estimate p values capacity)"
      using assms(1,2) False by (simp add: R8_value spec_estimate_def)
    from assign_scores_ok [OF this, of Map.empty] show ?thesis
      using False assms(1)
      by (cases ps) (simp_all add: percentiles_def fn go_int_of_nat fun_eq_iff)
  qed
qed


subsection \<open>float64 arithmetic at concrete arguments\<close>

lemma third_value: "third = 6004799503160661 / 18014398509481984"
  unfolding third_def
  by (rule round64_evalI [where e = "- 2" and m = 6004799503160661]) (simp_all add: rne_def)

lemma rank_0_9_float: "is_float64 rank_0_9"
  using is_float64_ratio [of 8106479329266893 53] by (simp add: rank_0_9_def)

lemma rank_0_9_times_2000: "fmul rank_0_9 2000 = 1800"
  unfolding fmul_def rank_0_9_def
  by (rule round64_evalI [where e = 10 and m = 7916483719987200]) (simp_all add: rne_def)

lemma is_float64_7_8: "is_float64 (7 / 8)"
  using is_float64_ratio [of 7 3] by simp

lemma pos_7_8_of_5: "fadd (fmul (7 / 8) (fadd 5 third)) third = 5629499534213119 / 1125899906842624"
proof -
  have a: "fadd 5 third = 6004799503160661 / 1125899906842624"
    unfolding fadd_def third_value
    by (rule round64_evalI [where e = 2 and m = 6004799503160661]) (simp_all add: rne_def)
  have b: "fmul (7 / 8) (6004799503160661 / 1125899906842624)
             = 2627099782632789 / 562949953421312"
    unfolding fmul_def
    by (rule round64_evalI [where e = 2 and m = 5254199565265578]) (simp_all add: rne_def)
  have c: "fadd (2627099782632789 / 562949953421312) third
             = 5629499534213119 / 1125899906842624"
    unfolding fadd_def third_value
    by (rule round64_evalI [where e = 2 and m = 5629499534213119]) (simp_all add: rne_def)
  show ?thesis by (simp only: a b c)
qed

lemma interpolate_40_50:
  "fadd 40 (fmul (1125899906842623 / 1125899906842624) (fsub 50 40))
     = 7036874417766399 / 140737488355328"
proof -
  have a: "fsub 50 40 = 10"
    unfolding fsub_def using round64_of_int [of 10] by simp
  have b: "fmul (1125899906842623 / 1125899906842624) 10
             = 5629499534213115 / 562949953421312"
    unfolding fmul_def
    by (rule round64_evalI [where e = 3 and m = 5629499534213115]) (simp_all add: rne_def)
  have c: "fadd 40 (5629499534213115 / 562949953421312)
             = 7036874417766399 / 140737488355328"
    unfolding fadd_def
    by (rule round64_evalI [where e = 5 and m = 7036874417766399]) (simp_all add: rne_def)
  show ?thesis by (simp only: a b c)
qed

lemma pos_half_of_3: "fadd (fmul (1 / 2) (fadd 3 third)) third = 2"
proof -
  have a: "fadd 3 third = 7505999378950827 / 2251799813685248"
    unfolding fadd_def third_value
    by (rule round64_evalI [where e = 1 and m = 7505999378950827]) (simp_all add: rne_def)
  have b: "fmul (1 / 2) (7505999378950827 / 2251799813685248)
             = 7505999378950827 / 4503599627370496"
    unfolding fmul_def
    by (rule round64_evalI [where e = 0 and m = 7505999378950827]) (simp_all add: rne_def)
  have c: "fadd (7505999378950827 / 4503599627370496) third = 2"
    unfolding fadd_def third_value
    by (rule round64_evalI [where e = 1 and m = 4503599627370496]) (simp_all add: rne_def)
  show ?thesis by (simp only: a b c)
qed

lemma half_of_3: "fmul (1 / 2) 3 = 3 / 2"
  unfolding fmul_def
  by (rule round64_evalI [where e = 0 and m = 6755399441055744]) (simp_all add: rne_def)

text \<open>
  With values of magnitude \<open>2^1022\<close> at most, the three operations of the interpolation
  stay within the finite range of float64, so no infinity and no NaN arises in the code.
\<close>

lemma interpolation_finite:
  assumes "\<bar>lower\<bar> \<le> 2 ^ 1022" and "\<bar>upper\<bar> \<le> 2 ^ 1022" and "0 \<le> f" and "f < 1"
  shows "\<bar>fsub upper lower\<bar> \<le> max_float64
       \<and> \<bar>fmul f (fsub upper lower)\<bar> \<le> max_float64
       \<and> \<bar>fadd lower (fmul f (fsub upper lower))\<bar> \<le> max_float64"
proof -
  define a :: real where "a = 2 ^ 1022"
  have a0: "0 < a" by (simp add: a_def)
  have p: "(2::real) ^ 1023 = 2 * a" "(2::real) ^ 1024 = 4 * a"
    using power_Suc [of "2::real" 1022] power_Suc [of "2::real" 1023] by (simp_all add: a_def)
  have q: "(2::real) ^ 971 \<le> a" unfolding a_def by (rule power_increasing) simp_all
  have m: "3 * a \<le> max_float64" unfolding max_float64_def p using q by linarith
  have r2: "round64 (2 * a) = 2 * a"
    using round64_pow2 [of 2 1022] by (simp add: a_def)
  have r3: "round64 (3 * a) = 3 * a"
    using round64_pow2 [of 3 1022] by (simp add: a_def)
  have l: "\<bar>lower\<bar> \<le> a" "\<bar>upper\<bar> \<le> a" using assms(1,2) by (simp_all add: a_def)
  have "\<bar>upper - lower\<bar> \<le> 2 * a" using l by linarith
  then have d: "\<bar>fsub upper lower\<bar> \<le> 2 * a"
    unfolding fsub_def using r2 by (rule round64_abs_le)
  have "\<bar>f * fsub upper lower\<bar> \<le> 1 * \<bar>fsub upper lower\<bar>"
    unfolding abs_mult using assms(3,4) by (intro mult_right_mono) simp_all
  then have "\<bar>f * fsub upper lower\<bar> \<le> 2 * a" using d by linarith
  then have e: "\<bar>fmul f (fsub upper lower)\<bar> \<le> 2 * a"
    unfolding fmul_def using r2 by (rule round64_abs_le)
  have "\<bar>lower + fmul f (fsub upper lower)\<bar> \<le> 3 * a" using l(1) e by linarith
  then have g: "\<bar>fadd lower (fmul f (fsub upper lower))\<bar> \<le> 3 * a"
    unfolding fadd_def using r3 by (rule round64_abs_le)
  from d e g m a0 show ?thesis by linarith
qed

text \<open>
  Claim C3. For a nonempty list of values and ranks \<open>p\<close> with \<open>0 < p \<le> 1\<close>, the estimator
  returns, for every requested rank, the value the specification gives: the nearest-rank
  value \<open>sortedValues[ceil(p*n) - 1]\<close> when \<open>n \<ge> capacity\<close>, and otherwise the R8 value
  computed from \<open>pos = p*(n + 1/3) + 1/3\<close>, every product, sum and difference being the
  rounded float64 one. The ranks are float64 numbers, the list is shorter than \<open>2^53\<close>
  (its length is converted to float64), and the values are at most \<open>2^1022\<close> in
  magnitude, which keeps the interpolation within the finite range. The list need not
  even be sorted.
\<close>

theorem percentiles_estimate:
  assumes "sortedValues \<noteq> []" and "length sortedValues < 2 ^ 53"
    and "\<forall>p\<in>set ranks. is_float64 p \<and> 0 < p \<and> p \<le> 1"
    and "\<forall>v\<in>set sortedValues. \<bar>v\<bar> \<le> 2 ^ 1022"
  shows "\<exists>scores. percentiles ranks sortedValues capacity = Inr scores
           \<and> dom scores = set ranks
           \<and> (\<forall>p\<in>set ranks. scores p = Some (spec_estimate p sortedValues capacity))"
  using percentiles_value [OF assms(1-3), of capacity] by (auto simp: dom_def)

theorem percentiles_estimate_witness:
  "(\<exists>scores. percentiles [rank_0_9] (map real [1..<2001]) 2000 = Inr scores
       \<and> scores rank_0_9 = Some 1800 \<and> map real [1..<2001] ! 1799 = 1800)
   \<and> (\<exists>scores. percentiles [7 / 8] [10, 20, 30, 40, 50] 2000 = Inr scores
       \<and> scores (7 / 8) = Some (7036874417766399 / 140737488355328))
   \<and> (\<exists>scores. percentiles [rank_0_9, 1] [10, 20, 30, 40, 50] 5 = Inr scores
       \<and> scores rank_0_9 = Some 50 \<and> scores 1 = Some 50)"
proof (intro conjI)
  let ?vs = "map real [1..<2001]"
  have h: "?vs \<noteq> []" "length ?vs < 2 ^ 53"
    "\<forall>p\<in>set [rank_0_9]. is_float64 p \<and> 0 < p \<and> p \<le> 1"
    by (simp_all add: rank_0_9_float) (simp_all add: rank_0_9_def)
  have b: "\<forall>v\<in>set ?vs. \<bar>v\<bar> \<le> 2 ^ 1022"
  proof
    fix v assume "v \<in> set ?vs"
    then obtain k where "v = real k" "k < 2001" by auto
    then have "\<bar>v\<bar> \<le> 2 ^ 11" by simp
    also have "(2::real) ^ 11 \<le> 2 ^ 1022" by (rule power_increasing) simp_all
    finally show "\<bar>v\<bar> \<le> 2 ^ 1022" .
  qed
  have e: "spec_estimate rank_0_9 ?vs 2000 = 1800"
    by (simp add: spec_estimate_def rank_0_9_times_2000)
  from percentiles_estimate [OF h b, of 2000] e
  show "\<exists>scores. percentiles [rank_0_9] ?vs 2000 = Inr scores
       \<and> scores rank_0_9 = Some 1800 \<and> ?vs ! 1799 = 1800"
    by auto
next
  let ?vs = "[10, 20, 30, 40, 50] :: real list"
  have h: "?vs \<noteq> []" "length ?vs < 2 ^ 53"
    "\<forall>p\<in>set [7 / 8]. is_float64 p \<and> 0 < p \<and> p \<le> 1"
    by (simp_all add: is_float64_7_8)
  have b: "\<forall>v\<in>set ?vs. \<bar>v\<bar> \<le> 2 ^ 1022"
  proof
    fix v :: real assume "v \<in> set ?vs"
    then have "\<bar>v\<bar> \<le> 2 ^ 6" by auto
    also have "(2::real) ^ 6 \<le> 2 ^ 1022" by (rule power_increasing) simp_all
    finally show "\<bar>v\<bar> \<le> 2 ^ 1022" .
  qed
  have f: "5629499534213119 / 1125899906842624 - 4
             = (1125899906842623 / 1125899906842624 :: real)" by simp
  have e: "spec_estimate (7 / 8) ?vs 2000 = 7036874417766399 / 140737488355328"
    using interpolate_40_50
    by (simp add: spec_estimate_def pos_7_8_of_5 Let_def f)
  from percentiles_estimate [OF h b, of 2000] e
  show "\<exists>scores. percentiles [7 / 8] ?vs 2000 = Inr scores
       \<and> scores (7 / 8) = Some (7036874417766399 / 140737488355328)"
    by auto
next
  let ?vs = "[10, 20, 30, 40, 50] :: real list"
  have h: "?vs \<noteq> []" "length ?vs < 2 ^ 53"
    "\<forall>p\<in>set [rank_0_9, 1]. is_float64 p \<and> 0 < p \<and> p \<le> 1"
    using is_float64_of_nat [of 1]
    by (simp_all add: rank_0_9_float) (simp_all add: rank_0_9_def)
  have b: "\<forall>v\<in>set ?vs. \<bar>v\<bar> \<le> 2 ^ 1022"
  proof
    fix v :: real assume "v \<in> set ?vs"
    then have "\<bar>v\<bar> \<le> 2 ^ 6" by auto
    also have "(2::real) ^ 6 \<le> 2 ^ 1022" by (rule power_increasing) simp_all
    finally show "\<bar>v\<bar> \<le> 2 ^ 1022" .
  qed
  have m: "fmul rank_0_9 5 = 9 / 2"
    unfolding fmul_def rank_0_9_def
    by (rule round64_evalI [where e = 2 and m = 5066549580791808]) (simp_all add: rne_def)
  have o: "fmul 1 5 = 5"
    unfolding fmul_def using round64_of_int [of 5] by simp
  have e: "spec_estimate rank_0_9 ?vs 5 = 50" "spec_estimate 1 ?vs 5 = 50"
    by (simp_all add: spec_estimate_def m o)
  from percentiles_estimate [OF h b, of 5] e
  show "\<exists>scores. percentiles [rank_0_9, 1] ?vs 5 = Inr scores
       \<and> scores rank_0_9 = Some 50 \<and> scores 1 = Some 50"
    by auto
qed

text \<open>
  Claim C10. For a nonempty list of values and a rank \<open>p\<close> with \<open>0 < p \<le> 1\<close> every slice
  access of the estimator is in bounds: the nearest-rank index \<open>i = ceil(p*n)\<close> satisfies
  \<open>1 \<le> i \<le> n\<close>, in the interpolation branch (\<open>1 \<le> pos < n\<close>) the integer part \<open>k\<close> of
  \<open>pos\<close> gives positions \<open>k - 1\<close> and \<open>k\<close> within \<open>[0, n - 1]\<close>, and so neither loop body
  nor \<open>percentiles\<close> as a whole panics. The product \<open>p*n\<close> and \<open>pos\<close> are the rounded
  float64 values the code computes, so \<open>p\<close> is a float64 number and the list is shorter
  than \<open>2^53\<close>, the lengths that float64 holds exactly.
\<close>

theorem percentiles_in_bounds:
  assumes "values \<noteq> []" and "0 < p" and "p \<le> 1"
    and "is_float64 p" and "length values < 2 ^ 53"
  shows "1 \<le> go_int (Ceil (fmul p (float64_of_int (int (length values)))))
         \<and> go_int (Ceil (fmul p (float64_of_int (int (length values))))) \<le> int (length values)
         \<and> (\<forall>k f. 1 \<le> fadd (fmul p (fadd (float64_of_int (int (length values))) third)) third
                \<and> fadd (fmul p (fadd (float64_of_int (int (length values))) third)) third
                    < float64_of_int (int (length values))
                \<and> Modf (fadd (fmul p (fadd (float64_of_int (int (length values))) third)) third)
                    = (k, f)
              \<longrightarrow> 0 \<le> go_int k - 1 \<and> go_int k \<le> int (length values) - 1)
         \<and> (\<exists>v. nearestRank values p = Inr v)
         \<and> (\<exists>v. R8 values p = Inr v)
         \<and> (\<forall>ps capacity. (\<forall>q\<in>set ps. is_float64 q \<and> 0 < q \<and> q \<le> 1)
              \<longrightarrow> (\<exists>scores. percentiles ps values capacity = Inr scores))"
proof -
  have n0: "0 < length values" using assms(1) by simp
  have fn: "float64_of_int (int (length values)) = real (length values)"
    using float64_of_nat [OF assms(5)] .
  have a: "1 \<le> go_int (Ceil (fmul p (float64_of_int (int (length values)))))
         \<and> go_int (Ceil (fmul p (float64_of_int (int (length values))))) \<le> int (length values)"
    using rank_bounds [OF assms(4,2,3) n0 assms(5)]
    by (simp add: fn Ceil_def go_int_of_int del: ceiling_le_iff)
  have b: "\<forall>k f. 1 \<le> fadd (fmul p (fadd (float64_of_int (int (length values))) third)) third
                \<and> fadd (fmul p (fadd (float64_of_int (int (length values))) third)) third
                    < float64_of_int (int (length values))
                \<and> Modf (fadd (fmul p (fadd (float64_of_int (int (length values))) third)) third)
                    = (k, f)
              \<longrightarrow> 0 \<le> go_int k - 1 \<and> go_int k \<le> int (length values) - 1"
  proof (intro allI impI)
    fix k f
    define pos where "pos = fadd (fmul p (fadd (float64_of_int (int (length values))) third)) third"
    assume "1 \<le> fadd (fmul p (fadd (float64_of_int (int (length values))) third)) third
                \<and> fadd (fmul p (fadd (float64_of_int (int (length values))) third)) third
                    < float64_of_int (int (length values))
                \<and> Modf (fadd (fmul p (fadd (float64_of_int (int (length values))) third)) third)
                    = (k, f)"
    then have h: "1 \<le> pos" "pos < real (length values)" "Modf pos = (k, f)"
      by (simp_all add: pos_def fn)
    have g: "go_int pos = \<lfloor>pos\<rfloor>" using h(1) by (simp add: go_int_def)
    have k: "go_int k = \<lfloor>pos\<rfloor>" using h(3) by (auto simp: Modf_def g go_int_of_int)
    show "0 \<le> go_int k - 1 \<and> go_int k \<le> int (length values) - 1"
      using floor_pos_bounds [OF h(1,2)] k by simp
  qed
  have c: "\<exists>v. nearestRank values p = Inr v"
    using nearestRank_value [OF assms(4,2,3,1,5)] by blast
  have d: "\<exists>v. R8 values p = Inr v"
    using R8_value [OF assms(1,5), of p] by blast
  have e: "\<forall>ps capacity. (\<forall>q\<in>set ps. is_float64 q \<and> 0 < q \<and> q \<le> 1)
              \<longrightarrow> (\<exists>scores. percentiles ps values capacity = Inr scores)"
    using percentiles_value [OF assms(1,5)] by blast
  from a b c d e show ?thesis by blast
qed

theorem percentiles_in_bounds_witness:
  "[1, 2, 3] \<noteq> ([] :: real list) \<and> (0 :: real) < 1 / 2 \<and> (1 / 2 :: real) \<le> 1
   \<and> is_float64 (1 / 2)
   \<and> go_int (Ceil (fmul (1 / 2) (float64_of_int (int (length [1, 2, 3 :: real]))))) = 2
   \<and> Modf (fadd (fmul (1 / 2) (fadd (float64_of_int (int (length [1, 2, 3 :: real]))) third)) third)
        = (2, 0)
   \<and> nearestRank [1, 2, 3] (1 / 2) = Inr 2
   \<and> R8 [1, 2, 3] (1 / 2) = Inr 2
   \<and> (\<exists>scores. percentiles [1 / 2] [1, 2, 3] 2000 = Inr scores)"
proof -
  have f3: "float64_of_int 3 = 3" using float64_of_int_small [of 3] by simp
  have r2: "fadd 2 0 = 2" unfolding fadd_def using round64_of_int [of 2] by simp
  have s1: "fsub 3 2 = 1" unfolding fsub_def using round64_of_int [of 1] by simp
  have l: "length [1, 2, 3 :: real] < 2 ^ 53" by simp
  from percentiles_in_bounds [of "[1, 2, 3]" "1 / 2", OF _ _ _ is_float64_half l]
  show ?thesis
    by (simp add: is_float64_half f3 half_of_3 pos_half_of_3 Ceil_def go_int_def Modf_def
        nearestRank_def R8_def at_index_def r2 s1)
qed


section \<open>The sampler under sequences of calls\<close>

lemma record_props:
  assumes "randomSample_record v seed s = Inr s'"
  shows "rs_n s' = wrap64 (rs_n s + 1)" and "rs_sum s' = fadd (rs_sum s) v"
    and "rs_max s' = max (rs_max s) v" and "rs_sampleSize s' = rs_sampleSize s"
    and "int (length (rs_values s)) < rs_sampleSize s \<Longrightarrow> rs_values s' = rs_values s @ [v]"
    and "\<not> int (length (rs_values s)) < rs_sampleSize s \<Longrightarrow> length (rs_values s') = length (rs_values s)"
  using assms
  by (auto simp: randomSample_record_def Let_def max_def split: if_splits sum.splits)

lemma record_succeeds:
  assumes "0 \<le> rs_n s" and "rs_n s < 2 ^ 63 - 1"
  shows "\<exists>s'. randomSample_record v seed s = Inr s'"
proof -
  have "wrap64 (rs_n s + 1) = rs_n s + 1" using assms by (intro wrap64_id) simp_all
  then have "0 < wrap64 (rs_n s + 1)" using assms by simp
  then show ?thesis
    by (simp add: randomSample_record_def Let_def Int63n_def)
qed

lemma record_under_capacity:
  assumes "int (length (rs_values s)) < rs_sampleSize s"
  shows "\<exists>s'. randomSample_record v seed s = Inr s'"
  using assms by (simp add: randomSample_record_def Let_def)

lemma records_props:
  assumes "randomSample_records xs s = Inr s'"
  shows "rs_sum s' = foldl fadd (rs_sum s) (map fst xs)"
    and "rs_max s' = foldl max (rs_max s) (map fst xs)"
    and "rs_sampleSize s' = rs_sampleSize s"
  using assms
proof (induction xs arbitrary: s)
  case Nil
  { case 1 then show ?case by simp }
  { case 2 then show ?case by simp }
  { case 3 then show ?case by simp }
next
  case (Cons x xs)
  obtain v seed where x: "x = (v, seed)" by (cases x)
  { case 1
    then obtain t where t: "randomSample_record v seed s = Inr t" "randomSample_records xs t = Inr s'"
      by (auto simp: x split: sum.splits)
    show ?case using Cons.IH(1)[OF t(2)] record_props(2)[OF t(1)] by (simp add: x) }
  { case 2
    then obtain t where t: "randomSample_record v seed s = Inr t" "randomSample_records xs t = Inr s'"
      by (auto simp: x split: sum.splits)
    show ?case using Cons.IH(2)[OF t(2)] record_props(3)[OF t(1)] by (simp add: x) }
  { case 3
    then obtain t where t: "randomSample_record v seed s = Inr t" "randomSample_records xs t = Inr s'"
      by (auto simp: x split: sum.splits)
    show ?case using Cons.IH(3)[OF t(2)] record_props(4)[OF t(1)] by (simp add: x) }
qed

lemma records_count:
  assumes "0 \<le> rs_n s" and "rs_n s + int (length xs) < 2 ^ 63"
  shows "\<exists>s'. randomSample_records xs s = Inr s' \<and> rs_n s' = rs_n s + int (length xs)"
  using assms
proof (induction xs arbitrary: s)
  case Nil
  then show ?case by simp
next
  case (Cons x xs)
  obtain v seed where x: "x = (v, seed)" by (cases x)
  have b: "rs_n s < 2 ^ 63 - 1" using Cons.prems by simp
  obtain t where t: "randomSample_record v seed s = Inr t"
    using record_succeeds [OF Cons.prems(1) b] by blast
  have "wrap64 (rs_n s + 1) = rs_n s + 1" using Cons.prems(1) b by (intro wrap64_id) simp_all
  then have n: "rs_n t = rs_n s + 1" using record_props(1)[OF t] by simp
  have "\<exists>s'. randomSample_records xs t = Inr s' \<and> rs_n s' = rs_n t + int (length xs)"
    using Cons.prems n by (intro Cons.IH) simp_all
  then show ?case using t n by (auto simp: x)
qed

lemma records_keep_nonempty:
  assumes "randomSample_records xs s = Inr s'" and "rs_values s \<noteq> []"
  shows "rs_values s' \<noteq> []"
  using assms
proof (induction xs arbitrary: s)
  case Nil
  then show ?case by simp
next
  case (Cons x xs)
  obtain v seed where x: "x = (v, seed)" by (cases x)
  from Cons.prems(1) obtain t
    where t: "randomSample_record v seed s = Inr t" "randomSample_records xs t = Inr s'"
    by (auto simp: x split: sum.splits)
  have "rs_values t \<noteq> []"
    using record_props(5,6)[OF t(1)] Cons.prems(2)
    by (cases "int (length (rs_values s)) < rs_sampleSize s") auto
  then show ?case using Cons.IH[OF t(2)] by simp
qed

lemma records_values_nonempty:
  assumes "randomSample_records xs s = Inr s'" and "xs \<noteq> []" and "0 < rs_sampleSize s"
  shows "rs_values s' \<noteq> []"
proof -
  obtain x rest where xs: "xs = x # rest" using assms(2) by (cases xs) auto
  obtain v seed where x: "x = (v, seed)" by (cases x)
  from assms(1) obtain t
    where t: "randomSample_record v seed s = Inr t" "randomSample_records rest t = Inr s'"
    by (auto simp: xs x split: sum.splits)
  have "rs_values t \<noteq> []"
    using record_props(5,6)[OF t(1)] assms(3)
    by (cases "int (length (rs_values s)) < rs_sampleSize s") auto
  then show ?thesis using records_keep_nonempty [OF t(2)] by blast
qed

lemma records_under_capacity:
  assumes "int (length (rs_values s) + length xs) \<le> rs_sampleSize s"
  shows "\<exists>s'. randomSample_records xs s = Inr s' \<and> rs_values s' = rs_values s @ map fst xs"
  using assms
proof (induction xs arbitrary: s)
  case Nil
  then show ?case by simp
next
  case (Cons x xs)
  obtain v seed where x: "x = (v, seed)" by (cases x)
  have b: "int (length (rs_values s)) < rs_sampleSize s" using Cons.prems by simp
  obtain t where t: "randomSample_record v seed s = Inr t"
    using record_under_capacity [OF b] by blast
  have tv: "rs_values t = rs_values s @ [v]" and ts: "rs_sampleSize t = rs_sampleSize s"
    using record_props(5)[OF t b] record_props(4)[OF t] by simp_all
  have "\<exists>s'. randomSample_records xs t = Inr s' \<and> rs_values s' = rs_values t @ map fst xs"
    using Cons.prems tv ts by (intro Cons.IH) simp
  then show ?case using t tv by (auto simp: x)
qed

lemma records_length:
  assumes "randomSample_records xs s = Inr s'"
  shows "int (length (rs_values s')) \<le> max (int (length (rs_values s))) (rs_sampleSize s)"
  using assms
proof (induction xs arbitrary: s)
  case Nil
  then show ?case by simp
next
  case (Cons x xs)
  obtain v seed where x: "x = (v, seed)" by (cases x)
  from Cons.prems obtain t
    where t: "randomSample_record v seed s = Inr t" "randomSample_records xs t = Inr s'"
    by (auto simp: x split: sum.splits)
  have "int (length (rs_values t)) \<le> max (int (length (rs_values s))) (rs_sampleSize s)"
    using record_props(5,6) [OF t(1)]
    by (cases "int (length (rs_values s)) < rs_sampleSize s") auto
  then show ?case using Cons.IH [OF t(2)] record_props(4) [OF t(1)] by simp
qed

lemma Histogram_records_resv:
  "Histogram_records xs h =
     (case randomSample_records xs (h_resv h) of Inl e \<Rightarrow> Inl e | Inr r \<Rightarrow> Inr (h\<lparr>h_resv := r\<rparr>))"
proof (induction xs arbitrary: h)
  case Nil
  then show ?case by simp
next
  case (Cons x xs)
  obtain v seed where x: "x = (v, seed)" by (cases x)
  show ?case by (simp add: x Histogram_Record_def Cons.IH split: sum.splits)
qed

lemma Gauge_calls_resv:
  "Gauge_calls cs g =
     (case randomSample_records (zip (recorded (g_last g) (map fst cs)) (map snd cs)) (g_resv g) of
        Inl e \<Rightarrow> Inl e
      | Inr r \<Rightarrow> Inr (g\<lparr>g_resv := r, g_last := last (g_last g # recorded (g_last g) (map fst cs))\<rparr>))"
proof (induction cs arbitrary: g)
  case Nil
  then show ?case by simp
next
  case (Cons x cs)
  obtain c seed where x: "x = (c, seed)" by (cases x)
  show ?case
  proof (cases c)
    case (GRecord v)
    then show ?thesis
      by (simp add: x Gauge_Record_def Cons.IH split: sum.splits)
  next
    case (GAdd d)
    then show ?thesis
      by (simp add: x Gauge_Add_def Cons.IH split: sum.splits)
  qed
qed

lemma length_recorded: "length (recorded l cs) = length cs"
  by (induction l cs rule: recorded.induct) simp_all

section \<open>Snapshots after recorded values\<close>

lemma finalize_empty:
  "rs_values resv = [] \<Longrightarrow> finalizeSnapshot snapshot resv p reset = Inr (snapshot, resv)"
  by (simp add: finalizeSnapshot_def)

lemma finalize_nonempty:
  assumes "rs_values resv \<noteq> []"
  shows "finalizeSnapshot snapshot resv p reset =
     (case percentiles p (sort (rs_values resv)) (rs_sampleSize resv) of
        Inl e \<Rightarrow> Inl e
      | Inr scores \<Rightarrow>
          Inr (snapshot\<lparr>snap_N := rs_n resv, snap_Sum := rs_sum resv, snap_Max := rs_max resv,
                 snap_Min := sort (rs_values resv) ! 0, snap_Percentile := Some scores\<rparr>,
               if reset then randomSample_reset resv else resv))"
  using assms
  by (simp add: finalizeSnapshot_def Let_def randomSample_reset_def split: sum.splits)

lemma finalize_count_sum:
  assumes "finalizeSnapshot zeroSnapshot resv p reset = Inr (snap, resv')"
    and "rs_values resv = [] \<longrightarrow> rs_n resv = 0 \<and> rs_sum resv = 0"
  shows "snap_N snap = rs_n resv \<and> snap_Sum snap = rs_sum resv"
proof (cases "rs_values resv = []")
  case True
  then show ?thesis using assms by (auto simp: finalize_empty zeroSnapshot_def)
next
  case False
  then show ?thesis using assms(1) by (auto simp: finalize_nonempty split: sum.splits)
qed

text \<open>A reset leaves the sampler in the state of a new one of the same size.\<close>

lemma reset_is_new: "randomSample_reset s = newRandomSample (rs_sampleSize s)"
  by (simp add: randomSample_reset_def newRandomSample_def)

lemma new_sample_fields:
  "rs_n (newRandomSample c) = 0" "rs_sum (newRandomSample c) = 0" "rs_max (newRandomSample c) = 0"
  "rs_values (newRandomSample c) = []" "rs_sampleSize (newRandomSample c) = c"
  by (simp_all add: newRandomSample_def)

lemma fresh_records:
  assumes "int (length xs) < 2 ^ 63"
  shows "\<exists>s'. randomSample_records xs (newRandomSample defaultSampleSize) = Inr s'
           \<and> rs_n s' = int (length xs)
           \<and> rs_sum s' = foldl fadd 0 (map fst xs)
           \<and> rs_max s' = foldl max 0 (map fst xs)
           \<and> rs_sampleSize s' = defaultSampleSize
           \<and> (rs_values s' = [] \<longrightarrow> xs = [])
           \<and> length (rs_values s') \<le> 2000"
proof -
  let ?s = "newRandomSample defaultSampleSize"
  obtain s' where s': "randomSample_records xs ?s = Inr s'" "rs_n s' = rs_n ?s + int (length xs)"
    using records_count [of ?s xs] assms by (auto simp: new_sample_fields)
  have "rs_values s' = [] \<longrightarrow> xs = []"
    using records_values_nonempty [OF s'(1)] by (auto simp: new_sample_fields defaultSampleSize_def)
  moreover have "length (rs_values s') \<le> 2000"
    using records_length [OF s'(1)] by (simp add: new_sample_fields defaultSampleSize_def)
  ultimately show ?thesis
    using s' records_props [OF s'(1)] by (simp add: new_sample_fields)
qed

lemma Histogram_Snapshot_count_sum:
  assumes "Histogram_Snapshot reset h = Inr (snap, h')"
    and "rs_values (h_resv h) = [] \<longrightarrow> rs_n (h_resv h) = 0 \<and> rs_sum (h_resv h) = 0"
  shows "snap_N snap = rs_n (h_resv h) \<and> snap_Sum snap = rs_sum (h_resv h)"
proof -
  from assms(1) obtain resv' where "finalizeSnapshot zeroSnapshot (h_resv h) (h_percentiles h) reset = Inr (snap, resv')"
    by (auto simp: Histogram_Snapshot_def split: sum.splits)
  from finalize_count_sum [OF this assms(2)] show ?thesis .
qed

lemma Gauge_Snapshot_count_sum:
  assumes "Gauge_Snapshot reset g = Inr (snap, g')"
    and "rs_values (g_resv g) = [] \<longrightarrow> rs_n (g_resv g) = 0 \<and> rs_sum (g_resv g) = 0"
  shows "snap_N snap = rs_n (g_resv g) \<and> snap_Sum snap = rs_sum (g_resv g)"
proof (cases "rs_values (g_resv g) = []")
  case True
  then show ?thesis using assms
    by (auto simp: Gauge_Snapshot_def finalize_empty zeroSnapshot_def Let_def split: if_splits)
next
  case False
  then show ?thesis using assms(1)
    by (auto simp: Gauge_Snapshot_def finalize_nonempty Let_def split: sum.splits if_splits)
qed

lemma Snapshot_returns:
  assumes "\<forall>p\<in>set ps. is_float64 p \<and> 0 < p \<and> p \<le> 1"
    and "length (rs_values resv) < 2 ^ 53"
  shows "\<exists>r. finalizeSnapshot snapshot resv ps reset = Inr r"
proof (cases "rs_values resv = []")
  case True
  then show ?thesis by (simp add: finalize_empty)
next
  case False
  then have "sort (rs_values resv) \<noteq> []" by (metis length_sort length_0_conv)
  moreover have "length (sort (rs_values resv)) < 2 ^ 53" using assms(2) by simp
  ultimately show ?thesis
    using percentiles_value [of "sort (rs_values resv)" ps] assms(1) False
    by (simp add: finalize_nonempty)
qed

lemma Histogram_Snapshot_returns:
  assumes "\<forall>p\<in>set (h_percentiles h). is_float64 p \<and> 0 < p \<and> p \<le> 1"
    and "length (rs_values (h_resv h)) < 2 ^ 53"
  shows "\<exists>snap h'. Histogram_Snapshot reset h = Inr (snap, h')"
proof -
  obtain r where "finalizeSnapshot zeroSnapshot (h_resv h) (h_percentiles h) reset = Inr r"
    using Snapshot_returns [OF assms] by blast
  then show ?thesis by (cases r) (simp add: Histogram_Snapshot_def)
qed

lemma Gauge_Snapshot_returns:
  assumes "\<forall>p\<in>set (g_percentiles g). is_float64 p \<and> 0 < p \<and> p \<le> 1"
    and "length (rs_values (g_resv g)) < 2 ^ 53"
  shows "\<exists>snap g'. Gauge_Snapshot reset g = Inr (snap, g')"
proof -
  obtain r where "finalizeSnapshot (zeroSnapshot\<lparr>snap_Last := g_last g\<rparr>) (g_resv g) (g_percentiles g) reset = Inr r"
    using Snapshot_returns [OF assms] by blast
  then show ?thesis by (cases r) (simp add: Gauge_Snapshot_def Let_def)
qed

lemma Histogram_exact:
  assumes "h_resv h = newRandomSample defaultSampleSize" and "int (length xs) < 2 ^ 63"
  shows "\<exists>h'. Histogram_records xs h = Inr h'
           \<and> h_percentiles h' = h_percentiles h
           \<and> length (rs_values (h_resv h')) \<le> 2000
           \<and> (\<forall>reset snap h''. Histogram_Snapshot reset h' = Inr (snap, h'') \<longrightarrow>
                 snap_N snap = int (length xs) \<and> snap_Sum snap = foldl fadd 0 (map fst xs))"
proof -
  obtain s' where s': "randomSample_records xs (newRandomSample defaultSampleSize) = Inr s'"
     "rs_n s' = int (length xs)" "rs_sum s' = foldl fadd 0 (map fst xs)"
     "rs_values s' = [] \<longrightarrow> xs = []" "length (rs_values s') \<le> 2000"
    using fresh_records [OF assms(2)] by blast
  let ?h' = "h\<lparr>h_resv := s'\<rparr>"
  have r: "Histogram_records xs h = Inr ?h'"
    by (simp add: Histogram_records_resv assms(1) s'(1))
  have e: "rs_values (h_resv ?h') = [] \<longrightarrow> rs_n (h_resv ?h') = 0 \<and> rs_sum (h_resv ?h') = 0"
    using s' by auto
  have "\<forall>reset snap h''. Histogram_Snapshot reset ?h' = Inr (snap, h'') \<longrightarrow>
                 snap_N snap = int (length xs) \<and> snap_Sum snap = foldl fadd 0 (map fst xs)"
    using Histogram_Snapshot_count_sum [OF _ e] s'(2,3) by auto
  then show ?thesis using r s'(5) by simp
qed

lemma Gauge_exact:
  assumes "g_resv g = newRandomSample defaultSampleSize" and "int (length cs) < 2 ^ 63"
  shows "\<exists>g'. Gauge_calls cs g = Inr g'
           \<and> g_percentiles g' = g_percentiles g
           \<and> length (rs_values (g_resv g')) \<le> 2000
           \<and> (\<forall>reset snap g''. Gauge_Snapshot reset g' = Inr (snap, g'') \<longrightarrow>
                 snap_N snap = int (length cs)
                 \<and> snap_Sum snap = foldl fadd 0 (recorded (g_last g) (map fst cs)))"
proof -
  let ?xs = "zip (recorded (g_last g) (map fst cs)) (map snd cs)"
  have l: "length ?xs = length cs" by (simp add: length_recorded)
  have m: "map fst ?xs = recorded (g_last g) (map fst cs)" by (simp add: length_recorded)
  obtain s' where s': "randomSample_records ?xs (newRandomSample defaultSampleSize) = Inr s'"
     "rs_n s' = int (length ?xs)" "rs_sum s' = foldl fadd 0 (map fst ?xs)"
     "rs_values s' = [] \<longrightarrow> ?xs = []" "length (rs_values s') \<le> 2000"
    using fresh_records [of ?xs] assms(2) l by auto
  let ?g' = "g\<lparr>g_resv := s', g_last := last (g_last g # recorded (g_last g) (map fst cs))\<rparr>"
  have r: "Gauge_calls cs g = Inr ?g'"
    by (simp add: Gauge_calls_resv assms(1) s'(1))
  have e: "rs_values (g_resv ?g') = [] \<longrightarrow> rs_n (g_resv ?g') = 0 \<and> rs_sum (g_resv ?g') = 0"
    using s' by auto
  have "\<forall>reset snap g''. Gauge_Snapshot reset ?g' = Inr (snap, g'') \<longrightarrow>
                 snap_N snap = int (length cs)
                 \<and> snap_Sum snap = foldl fadd 0 (recorded (g_last g) (map fst cs))"
    using Gauge_Snapshot_count_sum [OF _ e] s'(2,3) l m by auto
  then show ?thesis using r s'(5) by simp
qed

text \<open>
  Claim C2. Take a Histogram or a Gauge whose sampler is in the state left by creation or
  by a reset, and record fewer than \<open>2^63\<close> values into it, with any seeds for the draws
  of the sampler, such that no running sum leaves the finite range of float64. The calls
  return, and every \<open>Snapshot\<close> that returns afterwards reports \<open>N\<close> equal to the number of
  values and \<open>Sum\<close> equal to their left-to-right sum, each addition the rounded float64
  one; with all configured ranks float64 numbers of \<open>(0, 1]\<close> the \<open>Snapshot\<close> does return.
  For the Gauge the values are those its \<open>Record\<close> and \<open>Add\<close> calls hand to the sampler.
\<close>

theorem exact_count_and_sum:
  assumes "int (length xs) < 2 ^ 63" and "int (length cs) < 2 ^ 63"
    and "h_resv h = newRandomSample defaultSampleSize"
    and "g_resv g = newRandomSample defaultSampleSize"
    and "sums_finite (map fst xs)" and "sums_finite (recorded (g_last g) (map fst cs))"
  shows "(\<exists>h'. Histogram_records xs h = Inr h'
            \<and> (\<forall>reset snap h''. Histogram_Snapshot reset h' = Inr (snap, h'') \<longrightarrow>
                  snap_N snap = int (length xs) \<and> snap_Sum snap = foldl fadd 0 (map fst xs))
            \<and> ((\<forall>p\<in>set (h_percentiles h). is_float64 p \<and> 0 < p \<and> p \<le> 1) \<longrightarrow>
                  (\<forall>reset. \<exists>snap h''. Histogram_Snapshot reset h' = Inr (snap, h''))))
       \<and> (\<exists>g'. Gauge_calls cs g = Inr g'
            \<and> (\<forall>reset snap g''. Gauge_Snapshot reset g' = Inr (snap, g'') \<longrightarrow>
                  snap_N snap = int (length cs)
                  \<and> snap_Sum snap = foldl fadd 0 (recorded (g_last g) (map fst cs)))
            \<and> ((\<forall>p\<in>set (g_percentiles g). is_float64 p \<and> 0 < p \<and> p \<le> 1) \<longrightarrow>
                  (\<forall>reset. \<exists>snap g''. Gauge_Snapshot reset g' = Inr (snap, g''))))"
proof
  obtain h' where h': "Histogram_records xs h = Inr h'" "h_percentiles h' = h_percentiles h"
    "length (rs_values (h_resv h')) \<le> 2000"
    "\<forall>reset snap h''. Histogram_Snapshot reset h' = Inr (snap, h'') \<longrightarrow>
                 snap_N snap = int (length xs) \<and> snap_Sum snap = foldl fadd 0 (map fst xs)"
    using Histogram_exact [OF assms(3,1)] by blast
  have "length (rs_values (h_resv h')) < 2 ^ 53" using h'(3) by simp
  then have "(\<forall>p\<in>set (h_percentiles h). is_float64 p \<and> 0 < p \<and> p \<le> 1) \<longrightarrow>
                  (\<forall>reset. \<exists>snap h''. Histogram_Snapshot reset h' = Inr (snap, h''))"
    using Histogram_Snapshot_returns [of h'] h'(2) by simp
  with h'(1,4) show "\<exists>h'. Histogram_records xs h = Inr h'
            \<and> (\<forall>reset snap h''. Histogram_Snapshot reset h' = Inr (snap, h'') \<longrightarrow>
                  snap_N snap = int (length xs) \<and> snap_Sum snap = foldl fadd 0 (map fst xs))
            \<and> ((\<forall>p\<in>set (h_percentiles h). is_float64 p \<and> 0 < p \<and> p \<le> 1) \<longrightarrow>
                  (\<forall>reset. \<exists>snap h''. Histogram_Snapshot reset h' = Inr (snap, h'')))"
    by blast
next
  obtain g' where g': "Gauge_calls cs g = Inr g'" "g_percentiles g' = g_percentiles g"
    "length (rs_values (g_resv g')) \<le> 2000"
    "\<forall>reset snap g''. Gauge_Snapshot reset g' = Inr (snap, g'') \<longrightarrow>
                 snap_N snap = int (length cs)
                 \<and> snap_Sum snap = foldl fadd 0 (recorded (g_last g) (map fst cs))"
    using Gauge_exact [OF assms(4,2)] by blast
  have "length (rs_values (g_resv g')) < 2 ^ 53" using g'(3) by simp
  then have "(\<forall>p\<in>set (g_percentiles g). is_float64 p \<and> 0 < p \<and> p \<le> 1) \<longrightarrow>
                  (\<forall>reset. \<exists>snap g''. Gauge_Snapshot reset g' = Inr (snap, g''))"
    using Gauge_Snapshot_returns [of g'] g'(2) by simp
  with g'(1,4) show "\<exists>g'. Gauge_calls cs g = Inr g'
            \<and> (\<forall>reset snap g''. Gauge_Snapshot reset g' = Inr (snap, g'') \<longrightarrow>
                  snap_N snap = int (length cs)
                  \<and> snap_Sum snap = foldl fadd 0 (recorded (g_last g) (map fst cs)))
            \<and> ((\<forall>p\<in>set (g_percentiles g). is_float64 p \<and> 0 < p \<and> p \<le> 1) \<longrightarrow>
                  (\<forall>reset. \<exists>snap g''. Gauge_Snapshot reset g' = Inr (snap, g'')))"
    by blast
qed

lemma foldl_fadd_ones:
  assumes "k + m < 2 ^ 53"
  shows "foldl fadd (real k) (replicate m 1) = real (k + m)"
  using assms
proof (induction m arbitrary: k)
  case 0
  then show ?case by simp
next
  case (Suc m)
  have "fadd (real k) 1 = real (Suc k)"
    unfolding fadd_def using round64_of_nat [of "Suc k"] Suc.prems by (simp add: add.commute)
  then show ?case using Suc.IH [of "Suc k"] Suc.prems by simp
qed

lemma max_float64_ge: "2 ^ 53 \<le> max_float64"
proof -
  have "(2::real) ^ 53 \<le> 2 ^ 1023" by (rule power_increasing) simp_all
  moreover have "(2::real) ^ 971 \<le> 2 ^ 1023" by (rule power_increasing) simp_all
  moreover have "(2::real) ^ 1024 = 2 ^ 1023 + 2 ^ 1023"
    using power_Suc [of "2::real" 1023] by simp
  ultimately show ?thesis unfolding max_float64_def by linarith
qed

lemma sums_finite_ones:
  assumes "m < 2 ^ 53"
  shows "sums_finite (replicate m 1)"
  unfolding sums_finite_def
proof (intro allI impI)
  fix k assume "k \<le> length (replicate m (1::real))"
  then have k: "k \<le> m" by simp
  then have t: "take k (replicate m (1::real)) = replicate k 1" by (simp add: min_def)
  have "foldl fadd 0 (replicate k 1) = real (0 + k)"
    using foldl_fadd_ones [of 0 k] k assms by simp
  moreover have "min k m = k" using k by simp
  ultimately have v: "foldl fadd 0 (take k (replicate m 1)) = real k" by simp
  have "k < 2 ^ 53" using k assms by simp
  then have "real k < real (2 ^ 53)" by (simp only: of_nat_less_iff)
  then have "real k \<le> 2 ^ 53" by simp
  then have "\<bar>real k\<bar> \<le> max_float64" using max_float64_ge by simp
  then show "\<bar>foldl fadd 0 (take k (replicate m 1))\<bar> \<le> max_float64" by (simp only: v)
qed

lemma recorded_Records: "recorded l (replicate m (GRecord v)) = replicate m v"
  by (induction m arbitrary: l) simp_all

lemma fadd_2_53_1: "fadd 9007199254740992 1 = 9007199254740992"
  unfolding fadd_def
  by (rule round64_evalI [where e = 53 and m = 4503599627370496]) (simp_all add: rne_def)

lemma fadd_0_2_53: "fadd 0 9007199254740992 = 9007199254740992"
proof -
  have "round64 (of_int 9007199254740992) = of_int 9007199254740992"
    using round64_representable [of 1 53] by simp
  then show ?thesis by (simp add: fadd_def)
qed

lemma foldl_2_53_1: "foldl fadd 0 [9007199254740992, 1] = 9007199254740992"
  by (simp only: foldl_Cons foldl_Nil fadd_0_2_53 fadd_2_53_1)

lemma sums_finite_2_53_1: "sums_finite [9007199254740992, 1]"
proof -
  have b: "(9007199254740992::real) \<le> max_float64" using max_float64_ge by simp
  have "\<bar>foldl fadd 0 (take k [9007199254740992, 1])\<bar> \<le> max_float64" for k
  proof -
    consider "k = 0" | "k = 1" | "2 \<le> k" by linarith
    then show ?thesis
    proof cases
      case 1
      then show ?thesis using b by simp
    next
      case 2
      then show ?thesis using b by (simp add: fadd_0_2_53)
    next
      case 3
      then have "take k [9007199254740992, 1 :: real] = [9007199254740992, 1]" by simp
      then show ?thesis using b by (simp only: foldl_2_53_1)
    qed
  qed
  then show ?thesis by (simp add: sums_finite_def)
qed

theorem exact_count_and_sum_witness:
  "(\<exists>h' snap h''. Histogram_records (replicate 2001 (1, 5)) (NewHistogram \<lparr>cfg_Percentiles = [1 / 2]\<rparr>) = Inr h'
       \<and> Histogram_Snapshot True h' = Inr (snap, h'') \<and> snap_N snap = 2001 \<and> snap_Sum snap = 2001)
   \<and> (\<exists>g' snap g''. Gauge_calls (replicate 2001 (GRecord 1, 5)) (NewGauge \<lparr>cfg_Percentiles = [1 / 2]\<rparr>) = Inr g'
       \<and> Gauge_Snapshot True g' = Inr (snap, g'') \<and> snap_N snap = 2001 \<and> snap_Sum snap = 2001)
   \<and> (\<exists>h' snap h''. Histogram_records [(9007199254740992, 0), (1, 0)] (NewHistogram \<lparr>cfg_Percentiles = [1 / 2]\<rparr>) = Inr h'
       \<and> Histogram_Snapshot False h' = Inr (snap, h'') \<and> snap_N snap = 2
       \<and> snap_Sum snap = 9007199254740992)"
proof -
  let ?h = "NewHistogram \<lparr>cfg_Percentiles = [1 / 2]\<rparr>"
  let ?g = "NewGauge \<lparr>cfg_Percentiles = [1 / 2]\<rparr>"
  let ?xs = "replicate 2001 (1 :: real, 5 :: nat)"
  let ?cs = "replicate 2001 (GRecord 1, 5 :: nat)"
  let ?ys = "[(9007199254740992, 0), (1, 0)] :: (real \<times> nat) list"
  have a: "int (length ?xs) < 2 ^ 63" "int (length ?cs) < 2 ^ 63"
    "h_resv ?h = newRandomSample defaultSampleSize" "g_resv ?g = newRandomSample defaultSampleSize"
    by (simp_all add: NewHistogram_def NewGauge_def)
  have ay: "int (length ?ys) < 2 ^ 63" by simp
  have f: "sums_finite (map fst ?xs)" "sums_finite (recorded (g_last ?g) (map fst ?cs))"
    using sums_finite_ones [of 2001] by (simp_all add: recorded_Records)
  have fy: "sums_finite (map fst ?ys)" using sums_finite_2_53_1 by simp
  have p: "\<forall>p\<in>set (h_percentiles ?h). is_float64 p \<and> 0 < p \<and> p \<le> 1"
    "\<forall>p\<in>set (g_percentiles ?g). is_float64 p \<and> 0 < p \<and> p \<le> 1"
    by (simp_all add: NewHistogram_def NewGauge_def is_float64_half)
  have s: "foldl fadd 0 (map fst ?xs) = 2001"
    "foldl fadd 0 (recorded (g_last ?g) (map fst ?cs)) = 2001"
    "int (length ?xs) = 2001" "int (length ?cs) = 2001"
    using foldl_fadd_ones [of 0 2001] by (simp_all add: recorded_Records)
  have "map fst ?ys = [9007199254740992, 1]" by simp
  then have sy: "foldl fadd 0 (map fst ?ys) = 9007199254740992" "int (length ?ys) = 2"
    by (simp_all only: foldl_2_53_1) simp
  from exact_count_and_sum [OF a f] p s
  have 1: "(\<exists>h' snap h''. Histogram_records ?xs ?h = Inr h'
       \<and> Histogram_Snapshot True h' = Inr (snap, h'') \<and> snap_N snap = 2001 \<and> snap_Sum snap = 2001)
   \<and> (\<exists>g' snap g''. Gauge_calls ?cs ?g = Inr g'
       \<and> Gauge_Snapshot True g' = Inr (snap, g'') \<and> snap_N snap = 2001 \<and> snap_Sum snap = 2001)"
    by metis
  from exact_count_and_sum [OF ay a(2) a(3) a(4) fy f(2)] p sy
  have 2: "\<exists>h' snap h''. Histogram_records ?ys ?h = Inr h'
       \<and> Histogram_Snapshot False h' = Inr (snap, h'') \<and> snap_N snap = 2
       \<and> snap_Sum snap = 9007199254740992"
    by metis
  from 1 2 show ?thesis by blast
qed

lemma foldl_max_Max: "foldl max a vs = Max (set (a # vs))"
proof (induction vs arbitrary: a)
  case Nil
  then show ?case by simp
next
  case (Cons v vs)
  have "foldl max a (v # vs) = Max (set (max a v # vs))" by (simp add: Cons.IH)
  also have "\<dots> = Max (set (a # v # vs))"
    by (cases "vs = []") (simp_all add: max.assoc)
  finally show ?case .
qed

text \<open>What \<open>Max\<close> really is after records into a fresh or reset sampler.\<close>

lemma fresh_records_max:
  assumes "randomSample_records xs (newRandomSample c) = Inr s'"
  shows "rs_max s' = Max (set (0 # map fst xs))"
  using records_props(2) [OF assms] by (simp add: new_sample_fields foldl_max_Max)

text \<open>
  Claim C1. \<open>max\<close> starts at zero and is only ever raised, so after the single value
  \<open>-1\<close> is recorded into a fresh Histogram the snapshot reports \<open>Max = 0\<close>, a value that
  was never recorded, while the true maximum of the sequence is \<open>-1\<close> (and \<open>Min\<close> is
  \<open>-1\<close>).
\<close>

theorem max_of_negative_values:
  "\<exists>h snap h'. Histogram_Record (- 1) 0 (NewHistogram \<lparr>cfg_Percentiles = []\<rparr>) = Inr h
      \<and> Histogram_Snapshot False h = Inr (snap, h')
      \<and> snap_Max snap = 0 \<and> snap_Min snap = - 1 \<and> Max (set [- 1 :: real]) = - 1"
  by (simp add: Histogram_Record_def NewHistogram_def newRandomSample_def defaultSampleSize_def
      randomSample_record_def wrap64_def Histogram_Snapshot_def finalizeSnapshot_def
      percentiles_def zeroSnapshot_def)

lemma nearestRank_zero: "nearestRank values 0 = Inl IndexOutOfRange"
  by (simp add: nearestRank_def Ceil_def go_int_def at_index_def)

lemma percentiles_zero_rank:
  assumes "values \<noteq> []" and "capacity \<le> int (length values)" and "length values < 2 ^ 53"
  shows "percentiles [0] values capacity = Inl IndexOutOfRange"
  using assms(1,2)
  by (simp add: percentiles_def float64_of_nat [OF assms(3)] go_int_of_nat nearestRank_zero)

text \<open>
  Claim C4. With rank \<open>0\<close> configured and the reservoir full (2000 values recorded), the
  nearest-rank loop computes \<open>i = 0\<close> and reads \<open>values[-1]\<close>: \<open>Snapshot\<close> panics, with
  or without reset, instead of returning the minimum.
\<close>

theorem nearest_rank_zero_panics:
  "\<exists>h. Histogram_records (replicate 2000 (1, 0)) (NewHistogram \<lparr>cfg_Percentiles = [0]\<rparr>) = Inr h
      \<and> length (rs_values (h_resv h)) = 2000
      \<and> Histogram_Snapshot True h = Inl IndexOutOfRange
      \<and> Histogram_Snapshot False h = Inl IndexOutOfRange"
proof -
  let ?s = "newRandomSample defaultSampleSize"
  let ?xs = "replicate 2000 (1 :: real, 0 :: nat)"
  let ?h = "NewHistogram \<lparr>cfg_Percentiles = [0]\<rparr>"
  have "int (length (rs_values ?s) + length ?xs) \<le> rs_sampleSize ?s"
    by (simp add: new_sample_fields defaultSampleSize_def)
  from records_under_capacity [OF this]
  obtain s' where s': "randomSample_records ?xs ?s = Inr s'" "rs_values s' = map fst ?xs"
    by (auto simp: new_sample_fields)
  have sz: "rs_sampleSize s' = defaultSampleSize"
    using records_props(3) [OF s'(1)] by (simp add: new_sample_fields)
  have len: "length (rs_values s') = 2000" by (simp add: s'(2))
  then have ne: "rs_values s' \<noteq> []" by (metis length_0_conv zero_neq_numeral)
  have ne': "sort (rs_values s') \<noteq> []" using ne by (metis length_sort length_0_conv)
  have pz: "percentiles [0] (sort (rs_values s')) (rs_sampleSize s') = Inl IndexOutOfRange"
    using ne' len by (intro percentiles_zero_rank) (simp_all add: sz defaultSampleSize_def)
  let ?h' = "?h\<lparr>h_resv := s'\<rparr>"
  have r: "Histogram_records ?xs ?h = Inr ?h'"
    by (simp add: Histogram_records_resv s'(1) NewHistogram_def)
  have "Histogram_Snapshot reset ?h' = Inl IndexOutOfRange" for reset
    using ne pz by (simp add: Histogram_Snapshot_def finalize_nonempty NewHistogram_def)
  then show ?thesis using r len by simp
qed


section \<open>One recorded value\<close>

lemma float64_of_int_1 [simp]: "float64_of_int 1 = 1"
  using float64_of_int_small [of 1] by simp

lemma R8_single: "R8 [v] p = Inr v"
  by (simp add: R8_def at_index_def go_int_def Let_def)

lemma percentiles_single:
  "percentiles ps [v] defaultSampleSize = Inr (\<lambda>q. if q \<in> set ps then Some v else None)"
proof -
  have "\<forall>p\<in>set ps. R8 [v] p = Inr v" by (simp add: R8_single)
  from assign_scores_ok [OF this, of Map.empty] show ?thesis
    by (cases ps) (simp_all add: percentiles_def go_int_def defaultSampleSize_def fun_eq_iff)
qed

lemma record_first_value:
  assumes "rs_values s = []" and "rs_sampleSize s = defaultSampleSize"
  shows "\<exists>s'. randomSample_record v seed s = Inr s' \<and> rs_values s' = [v]
            \<and> rs_sampleSize s' = defaultSampleSize"
  using assms by (simp add: randomSample_record_def Let_def defaultSampleSize_def)

lemma finalize_single:
  assumes "rs_values s = [v]" and "rs_sampleSize s = defaultSampleSize"
  shows "\<exists>snap s'. finalizeSnapshot snapshot s ps reset = Inr (snap, s')
            \<and> snap_Percentile snap = Some (\<lambda>q. if q \<in> set ps then Some v else None)"
  using assms by (simp add: finalize_nonempty percentiles_single)

lemma Gauge_single:
  assumes "rs_values (g_resv g) = []" and "rs_sampleSize (g_resv g) = defaultSampleSize"
    and "randomSample_record v seed (g_resv g) = Inr s'"
  shows "\<exists>snap g''. Gauge_Snapshot reset (g\<lparr>g_last := v, g_resv := s'\<rparr>) = Inr (snap, g'')
            \<and> snap_Percentile snap = Some (\<lambda>q. if q \<in> set (g_percentiles g) then Some v else None)"
proof -
  have s': "rs_values s' = [v]" "rs_sampleSize s' = defaultSampleSize"
    using record_first_value [OF assms(1,2), of v seed] assms(3) by auto
  obtain snap r where f: "finalizeSnapshot (zeroSnapshot\<lparr>snap_Last := v\<rparr>) s' (g_percentiles g) reset = Inr (snap, r)"
    "snap_Percentile snap = Some (\<lambda>q. if q \<in> set (g_percentiles g) then Some v else None)"
    using finalize_single [OF s'] by blast
  then show ?thesis by (simp add: Gauge_Snapshot_def Let_def)
qed

text \<open>
  Claim C5. Take a Gauge or a Histogram with an empty sample and the package's reservoir
  size, whose configured ranks all lie in \<open>[0, 1]\<close>, and record exactly one value into it
  (for the Gauge through \<open>Record\<close> or through \<open>Add\<close>, which records the new last value,
  the rounded sum of the last value and the converted delta).
  The next \<open>Snapshot\<close>, with or without reset, returns, and its \<open>Percentile\<close> map has
  exactly the configured ranks as keys and assigns the recorded value to each.
\<close>

theorem single_value_percentiles:
  assumes "rs_values (g_resv g) = []" and "rs_sampleSize (g_resv g) = defaultSampleSize"
    and "\<forall>p\<in>set (g_percentiles g). 0 \<le> p \<and> p \<le> 1"
    and "rs_values (h_resv h) = []" and "rs_sampleSize (h_resv h) = defaultSampleSize"
    and "\<forall>p\<in>set (h_percentiles h). 0 \<le> p \<and> p \<le> 1"
  shows "(\<exists>g' snap g'' scores. Gauge_Record v seed g = Inr g'
            \<and> Gauge_Snapshot reset g' = Inr (snap, g'')
            \<and> snap_Percentile snap = Some scores \<and> dom scores = set (g_percentiles g)
            \<and> (\<forall>p\<in>set (g_percentiles g). scores p = Some v))
       \<and> (\<exists>g' snap g'' scores. Gauge_Add delta seed g = Inr g'
            \<and> Gauge_Snapshot reset g' = Inr (snap, g'')
            \<and> snap_Percentile snap = Some scores \<and> dom scores = set (g_percentiles g)
            \<and> (\<forall>p\<in>set (g_percentiles g).
                  scores p = Some (fadd (g_last g) (float64_of_int delta))))
       \<and> (\<exists>h' snap h'' scores. Histogram_Record v seed h = Inr h'
            \<and> Histogram_Snapshot reset h' = Inr (snap, h'')
            \<and> snap_Percentile snap = Some scores \<and> dom scores = set (h_percentiles h)
            \<and> (\<forall>p\<in>set (h_percentiles h). scores p = Some v))"
proof (intro conjI)
  obtain s' where s': "randomSample_record v seed (g_resv g) = Inr s'"
    using record_first_value [OF assms(1,2)] by blast
  obtain snap g'' where "Gauge_Snapshot reset (g\<lparr>g_last := v, g_resv := s'\<rparr>) = Inr (snap, g'')"
     "snap_Percentile snap = Some (\<lambda>q. if q \<in> set (g_percentiles g) then Some v else None)"
    using Gauge_single [OF assms(1,2) s'] by blast
  moreover have "Gauge_Record v seed g = Inr (g\<lparr>g_last := v, g_resv := s'\<rparr>)"
    using s' by (simp add: Gauge_Record_def)
  moreover have "dom (\<lambda>q. if q \<in> set (g_percentiles g) then Some v else None) = set (g_percentiles g)"
    by (auto simp: dom_def)
  ultimately show "\<exists>g' snap g'' scores. Gauge_Record v seed g = Inr g'
            \<and> Gauge_Snapshot reset g' = Inr (snap, g'')
            \<and> snap_Percentile snap = Some scores \<and> dom scores = set (g_percentiles g)
            \<and> (\<forall>p\<in>set (g_percentiles g). scores p = Some v)"
    by (intro exI [of _ "g\<lparr>g_last := v, g_resv := s'\<rparr>"] exI [of _ snap] exI [of _ g'']
        exI [of _ "\<lambda>q. if q \<in> set (g_percentiles g) then Some v else None"]) simp
next
  let ?w = "fadd (g_last g) (float64_of_int delta)"
  obtain s' where s': "randomSample_record ?w seed (g_resv g) = Inr s'"
    using record_first_value [OF assms(1,2)] by blast
  obtain snap g'' where "Gauge_Snapshot reset (g\<lparr>g_last := ?w, g_resv := s'\<rparr>) = Inr (snap, g'')"
     "snap_Percentile snap = Some (\<lambda>q. if q \<in> set (g_percentiles g) then Some ?w else None)"
    using Gauge_single [OF assms(1,2) s'] by blast
  moreover have "Gauge_Add delta seed g = Inr (g\<lparr>g_last := ?w, g_resv := s'\<rparr>)"
    using s' by (simp add: Gauge_Add_def)
  moreover have "dom (\<lambda>q. if q \<in> set (g_percentiles g) then Some ?w else None) = set (g_percentiles g)"
    by (auto simp: dom_def)
  ultimately show "\<exists>g' snap g'' scores. Gauge_Add delta seed g = Inr g'
            \<and> Gauge_Snapshot reset g' = Inr (snap, g'')
            \<and> snap_Percentile snap = Some scores \<and> dom scores = set (g_percentiles g)
            \<and> (\<forall>p\<in>set (g_percentiles g). scores p = Some ?w)"
    by (intro exI [of _ "g\<lparr>g_last := ?w, g_resv := s'\<rparr>"] exI [of _ snap] exI [of _ g'']
        exI [of _ "\<lambda>q. if q \<in> set (g_percentiles g) then Some ?w else None"]) simp
next
  obtain s' where s': "randomSample_record v seed (h_resv h) = Inr s'" "rs_values s' = [v]"
      "rs_sampleSize s' = defaultSampleSize"
    using record_first_value [OF assms(4,5)] by blast
  obtain snap r where f: "finalizeSnapshot zeroSnapshot s' (h_percentiles h) reset = Inr (snap, r)"
    "snap_Percentile snap = Some (\<lambda>q. if q \<in> set (h_percentiles h) then Some v else None)"
    using finalize_single [OF s'(2,3)] by blast
  have "Histogram_Record v seed h = Inr (h\<lparr>h_resv := s'\<rparr>)"
    using s' by (simp add: Histogram_Record_def)
  moreover have "Histogram_Snapshot reset (h\<lparr>h_resv := s'\<rparr>) = Inr (snap, h\<lparr>h_resv := r\<rparr>)"
    using f by (simp add: Histogram_Snapshot_def)
  moreover have "dom (\<lambda>q. if q \<in> set (h_percentiles h) then Some v else None) = set (h_percentiles h)"
    by (auto simp: dom_def)
  ultimately show "\<exists>h' snap h'' scores. Histogram_Record v seed h = Inr h'
            \<and> Histogram_Snapshot reset h' = Inr (snap, h'')
            \<and> snap_Percentile snap = Some scores \<and> dom scores = set (h_percentiles h)
            \<and> (\<forall>p\<in>set (h_percentiles h). scores p = Some v)"
    using f(2)
    by (intro exI [of _ "h\<lparr>h_resv := s'\<rparr>"] exI [of _ snap] exI [of _ "h\<lparr>h_resv := r\<rparr>"]
        exI [of _ "\<lambda>q. if q \<in> set (h_percentiles h) then Some v else None"]) simp
qed

theorem single_value_percentiles_witness:
  "(\<exists>g' snap g'' scores. Gauge_Record 5 0 (NewGauge \<lparr>cfg_Percentiles = [0, 1 / 2, 1]\<rparr>) = Inr g'
       \<and> Gauge_Snapshot True g' = Inr (snap, g'')
       \<and> snap_Percentile snap = Some scores
       \<and> scores 0 = Some 5 \<and> scores (1 / 2) = Some 5 \<and> scores 1 = Some 5)
   \<and> (\<exists>h' snap h'' scores. Histogram_Record 5 0 (NewHistogram \<lparr>cfg_Percentiles = [0, 1 / 2, 1]\<rparr>) = Inr h'
       \<and> Histogram_Snapshot True h' = Inr (snap, h'')
       \<and> snap_Percentile snap = Some scores
       \<and> scores 0 = Some 5 \<and> scores (1 / 2) = Some 5 \<and> scores 1 = Some 5)"
  using single_value_percentiles [of "NewGauge \<lparr>cfg_Percentiles = [0, 1 / 2, 1]\<rparr>"
      "NewHistogram \<lparr>cfg_Percentiles = [0, 1 / 2, 1]\<rparr>" 5 0 True 0]
  by (simp add: NewGauge_def NewHistogram_def new_sample_fields) blast

section \<open>Snapshot without reset\<close>

lemma finalize_no_reset:
  assumes "finalizeSnapshot snapshot resv p False = Inr (snap, resv')"
  shows "resv' = resv"
  using assms
  by (cases "rs_values resv = []") (auto simp: finalize_empty finalize_nonempty split: sum.splits)

lemma Counter_Snapshot_no_reset: "Counter_Snapshot False c = (s, c') \<Longrightarrow> c' = c"
  by (auto simp: Counter_Snapshot_def Let_def)

lemma Gauge_Snapshot_no_reset:
  assumes "Gauge_Snapshot False g = Inr (s, g')"
  shows "g' = g"
proof -
  from assms obtain resv' where f: "finalizeSnapshot (zeroSnapshot\<lparr>snap_Last := g_last g\<rparr>)
      (g_resv g) (g_percentiles g) False = Inr (s, resv')" and g': "g' = g\<lparr>g_resv := resv'\<rparr>"
    by (auto simp: Gauge_Snapshot_def Let_def split: sum.splits)
  from finalize_no_reset [OF f] g' show ?thesis by simp
qed

lemma Histogram_Snapshot_no_reset:
  assumes "Histogram_Snapshot False h = Inr (s, h')"
  shows "h' = h"
proof -
  from assms obtain resv' where f: "finalizeSnapshot zeroSnapshot
      (h_resv h) (h_percentiles h) False = Inr (s, resv')" and h': "h' = h\<lparr>h_resv := resv'\<rparr>"
    by (auto simp: Histogram_Snapshot_def Let_def split: sum.splits)
  from finalize_no_reset [OF f] h' show ?thesis by simp
qed

text \<open>
  Claim C8. A \<open>Snapshot(false)\<close> that returns leaves the whole state of a Counter, a
  Gauge or a Histogram as it was (count, sum, max, last and the sample, in the same
  order), so a second \<open>Snapshot(false)\<close> right after it returns the same snapshot.
\<close>

theorem snapshot_without_reset_keeps_state:
  "(Counter_Snapshot False c = (s1, c') \<longrightarrow> c' = c \<and> Counter_Snapshot False c' = (s1, c'))
   \<and> (Gauge_Snapshot False g = Inr (s2, g') \<longrightarrow>
         g' = g \<and> Gauge_Snapshot False g' = Inr (s2, g') \<and> Gauge_Snapshots [False, False] g = Inr [s2, s2])
   \<and> (Histogram_Snapshot False h = Inr (s3, h') \<longrightarrow>
         h' = h \<and> Histogram_Snapshot False h' = Inr (s3, h')
         \<and> Histogram_Snapshots [False, False] h = Inr [s3, s3])"
proof (intro conjI impI)
  assume a: "Counter_Snapshot False c = (s1, c')"
  show "c' = c" using a by (rule Counter_Snapshot_no_reset)
  then show "Counter_Snapshot False c' = (s1, c')" using a by simp
next
  assume a: "Gauge_Snapshot False g = Inr (s2, g')"
  show e: "g' = g" using a by (rule Gauge_Snapshot_no_reset)
  then show "Gauge_Snapshot False g' = Inr (s2, g')" using a by simp
  show "Gauge_Snapshots [False, False] g = Inr [s2, s2]" using a e by simp
next
  assume a: "Histogram_Snapshot False h = Inr (s3, h')"
  show e: "h' = h" using a by (rule Histogram_Snapshot_no_reset)
  then show "Histogram_Snapshot False h' = Inr (s3, h')" using a by simp
  show "Histogram_Snapshots [False, False] h = Inr [s3, s3]" using a e by simp
qed

theorem snapshot_without_reset_keeps_state_witness:
  "(\<exists>s. Counter_Snapshot False \<lparr>c_n = 2, c_sum = 8\<rparr> = (s, \<lparr>c_n = 2, c_sum = 8\<rparr>) \<and> snap_N s = 2)
   \<and> (\<exists>s. Gauge_Snapshots [False, False]
            \<lparr>g_percentiles = [1 / 2],
             g_resv = \<lparr>rs_sampleSize = 2000, rs_n = 2, rs_sum = 8, rs_max = 5, rs_values = [5, 3]\<rparr>,
             g_last = 3\<rparr> = Inr [s, s] \<and> snap_N s = 2 \<and> snap_Min s = 3)
   \<and> (\<exists>s. Histogram_Snapshots [False, False]
            \<lparr>h_percentiles = [1 / 2],
             h_resv = \<lparr>rs_sampleSize = 2000, rs_n = 2, rs_sum = 8, rs_max = 5, rs_values = [5, 3]\<rparr>\<rparr>
              = Inr [s, s] \<and> snap_N s = 2 \<and> snap_Min s = 3)"
proof -
  let ?c = "\<lparr>c_n = 2, c_sum = 8\<rparr>"
  let ?r = "\<lparr>rs_sampleSize = 2000, rs_n = 2, rs_sum = 8, rs_max = 5, rs_values = [5, 3]\<rparr>"
  let ?g = "\<lparr>g_percentiles = [1 / 2], g_resv = ?r, g_last = 3\<rparr>"
  let ?h = "\<lparr>h_percentiles = [1 / 2], h_resv = ?r\<rparr>"
  obtain sg g' where g: "Gauge_Snapshot False ?g = Inr (sg, g')"
    using Gauge_Snapshot_returns [of ?g False] by (auto simp: is_float64_half)
  obtain sh h' where h: "Histogram_Snapshot False ?h = Inr (sh, h')"
    using Histogram_Snapshot_returns [of ?h False] by (auto simp: is_float64_half)
  obtain sc c' where c: "Counter_Snapshot False ?c = (sc, c')"
    by (cases "Counter_Snapshot False ?c") 
  have ng: "snap_N sg = 2 \<and> snap_Min sg = 3"
    using g by (auto simp: Gauge_Snapshot_def finalize_nonempty Let_def split: sum.splits)
  have nh: "snap_N sh = 2 \<and> snap_Min sh = 3"
    using h by (auto simp: Histogram_Snapshot_def finalize_nonempty Let_def split: sum.splits)
  have nc: "snap_N sc = 2"
    using c by (auto simp: Counter_Snapshot_def Let_def)
  from snapshot_without_reset_keeps_state [of ?c sc c' ?g sg g' ?h sh h'] c g h ng nh nc
  show ?thesis by (metis (no_types, lifting))
qed

section \<open>The empty state\<close>

lemma Counter_Snapshots_zero:
  "c_n c = 0 \<Longrightarrow> c_sum c = 0 \<Longrightarrow> Counter_Snapshots rs c = replicate (length rs) zeroSnapshot"
proof (induction rs arbitrary: c)
  case Nil
  then show ?case by simp
next
  case (Cons r rs)
  have "Counter_Snapshot r c = (zeroSnapshot, c)"
    using Cons.prems by (cases c) (simp add: Counter_Snapshot_def zeroSnapshot_def Let_def)
  then show ?case using Cons by simp
qed

lemma Counter_Snapshot_drains:
  "Counter_Snapshot True c = (s, c') \<Longrightarrow> c_n c' = 0 \<and> c_sum c' = 0"
  by (auto simp: Counter_Snapshot_def Let_def)

lemma Gauge_Snapshot_empty:
  assumes "rs_values (g_resv g) = []"
  shows "Gauge_Snapshot reset g =
           Inr (zeroSnapshot\<lparr>snap_Last := g_last g\<rparr>, if reset then g\<lparr>g_last := 0\<rparr> else g)"
  using assms by (simp add: Gauge_Snapshot_def finalize_empty)

lemma Gauge_Snapshots_zero:
  "rs_values (g_resv g) = [] \<Longrightarrow> g_last g = 0 \<Longrightarrow>
     Gauge_Snapshots rs g = Inr (replicate (length rs) zeroSnapshot)"
proof (induction rs arbitrary: g)
  case Nil
  then show ?case by simp
next
  case (Cons r rs)
  have s: "Gauge_Snapshot r g = Inr (zeroSnapshot, g)"
    using Cons.prems by (cases g) (simp add: Gauge_Snapshot_empty zeroSnapshot_def)
  show ?case using Cons.IH [OF Cons.prems] by (simp add: s)
qed

lemma Gauge_Snapshot_drains:
  assumes "Gauge_Snapshot True g = Inr (s, g')"
  shows "rs_values (g_resv g') = [] \<and> g_last g' = 0"
  using assms
  by (cases "rs_values (g_resv g) = []")
     (auto simp: Gauge_Snapshot_def finalize_empty finalize_nonempty randomSample_reset_def Let_def
           split: sum.splits)

lemma Histogram_Snapshot_empty:
  assumes "rs_values (h_resv h) = []"
  shows "Histogram_Snapshot reset h = Inr (zeroSnapshot, h)"
  using assms by (simp add: Histogram_Snapshot_def finalize_empty)

lemma Histogram_Snapshots_zero:
  "rs_values (h_resv h) = [] \<Longrightarrow>
     Histogram_Snapshots rs h = Inr (replicate (length rs) zeroSnapshot)"
  by (induction rs) (simp_all add: Histogram_Snapshot_empty)

lemma Histogram_Snapshot_drains:
  assumes "Histogram_Snapshot True h = Inr (s, h')"
  shows "rs_values (h_resv h') = []"
  using assms
  by (cases "rs_values (h_resv h) = []")
     (auto simp: Histogram_Snapshot_def finalize_empty finalize_nonempty randomSample_reset_def
           split: sum.splits)

lemma record_inv:
  assumes "randomSample_record v seed s = Inr s'" and "rs_sampleSize s = defaultSampleSize"
  shows "rs_values s' \<noteq> [] \<and> rs_sampleSize s' = defaultSampleSize"
proof -
  have "rs_values s' \<noteq> []"
    using record_props(5,6) [OF assms(1)] assms(2)
    by (cases "int (length (rs_values s)) < rs_sampleSize s") (auto simp: defaultSampleSize_def)
  then show ?thesis using record_props(4) [OF assms(1)] assms(2) by simp
qed

lemma Gauge_Record_inv:
  assumes "Gauge_Record v seed g = Inr g'" and "rs_sampleSize (g_resv g) = defaultSampleSize"
  shows "Gauge_inv g' \<and> rs_sampleSize (g_resv g') = defaultSampleSize"
proof -
  from assms(1) obtain s' where s': "randomSample_record v seed (g_resv g) = Inr s'"
    and g': "g' = g\<lparr>g_last := v, g_resv := s'\<rparr>"
    by (auto simp: Gauge_Record_def split: sum.splits)
  from record_inv [OF s' assms(2)] show ?thesis by (simp add: g' Gauge_inv_def)
qed

lemma Gauge_Add_inv:
  assumes "Gauge_Add delta seed g = Inr g'" and "rs_sampleSize (g_resv g) = defaultSampleSize"
  shows "Gauge_inv g' \<and> rs_sampleSize (g_resv g') = defaultSampleSize"
proof -
  from assms(1) obtain s' where s': "randomSample_record (fadd (g_last g) (float64_of_int delta)) seed
      (g_resv g) = Inr s'"
    and g': "g' = g\<lparr>g_last := fadd (g_last g) (float64_of_int delta), g_resv := s'\<rparr>"
    by (auto simp: Gauge_Add_def split: sum.splits)
  from record_inv [OF s' assms(2)] show ?thesis by (simp add: g' Gauge_inv_def)
qed

lemma Gauge_Snapshot_inv:
  assumes "Gauge_Snapshot reset g = Inr (s, g')" and "Gauge_inv g"
  shows "Gauge_inv g' \<and> rs_sampleSize (g_resv g') = rs_sampleSize (g_resv g)"
  using assms
  by (cases "rs_values (g_resv g) = []")
     (auto simp: Gauge_Snapshot_def finalize_empty finalize_nonempty randomSample_reset_def Let_def
           Gauge_inv_def split: sum.splits if_splits)

lemma Histogram_Record_inv:
  assumes "Histogram_Record v seed h = Inr h'" and "rs_sampleSize (h_resv h) = defaultSampleSize"
  shows "Histogram_inv h' \<and> rs_sampleSize (h_resv h') = defaultSampleSize"
proof -
  from assms(1) obtain s' where s': "randomSample_record v seed (h_resv h) = Inr s'"
    and h': "h' = h\<lparr>h_resv := s'\<rparr>"
    by (auto simp: Histogram_Record_def split: sum.splits)
  from record_inv [OF s' assms(2)] show ?thesis
    by (simp add: h' Histogram_inv_def randomSample_inv_def)
qed

lemma Histogram_Snapshot_inv:
  assumes "Histogram_Snapshot reset h = Inr (s, h')" and "Histogram_inv h"
  shows "Histogram_inv h' \<and> rs_sampleSize (h_resv h') = rs_sampleSize (h_resv h)"
  using assms
  by (cases "rs_values (h_resv h) = []")
     (auto simp: Histogram_Snapshot_def finalize_empty finalize_nonempty randomSample_reset_def
           Histogram_inv_def randomSample_inv_def split: sum.splits if_splits)

text \<open>
  Claim C7. A fresh Counter, Gauge or Histogram, and one left by a \<open>Snapshot(true)\<close>
  that returned, answers every later run of \<open>Snapshot\<close> calls (any reset flags, nothing
  recorded in between) with all-zero snapshots: every field at its default, the
  \<open>Percentile\<close> map nil. The state predicate (an empty sample comes with count, sum, max
  and, for the Gauge, last all zero) holds at creation and is kept, with the reservoir
  size, by every operation that changes the state: \<open>Record\<close>, \<open>Add\<close> and \<open>Snapshot\<close>.
\<close>

theorem empty_state_snapshots_all_zero:
  "Counter_Snapshots rs NewCounter = replicate (length rs) zeroSnapshot
   \<and> (Counter_Snapshot True c = (s1, c') \<longrightarrow>
         Counter_Snapshots rs c' = replicate (length rs) zeroSnapshot)
   \<and> Gauge_Snapshots rs (NewGauge cfg) = Inr (replicate (length rs) zeroSnapshot)
   \<and> (Gauge_Snapshot True g = Inr (s2, g') \<longrightarrow>
         Gauge_Snapshots rs g' = Inr (replicate (length rs) zeroSnapshot))
   \<and> Histogram_Snapshots rs (NewHistogram cfg) = Inr (replicate (length rs) zeroSnapshot)
   \<and> (Histogram_Snapshot True h = Inr (s3, h') \<longrightarrow>
         Histogram_Snapshots rs h' = Inr (replicate (length rs) zeroSnapshot))
   \<and> Gauge_inv (NewGauge cfg) \<and> rs_sampleSize (g_resv (NewGauge cfg)) = defaultSampleSize
   \<and> Histogram_inv (NewHistogram cfg) \<and> rs_sampleSize (h_resv (NewHistogram cfg)) = defaultSampleSize
   \<and> (Gauge_inv g \<and> rs_sampleSize (g_resv g) = defaultSampleSize \<longrightarrow>
         (\<forall>v seed g1. Gauge_Record v seed g = Inr g1 \<longrightarrow>
             Gauge_inv g1 \<and> rs_sampleSize (g_resv g1) = defaultSampleSize)
       \<and> (\<forall>delta seed g1. Gauge_Add delta seed g = Inr g1 \<longrightarrow>
             Gauge_inv g1 \<and> rs_sampleSize (g_resv g1) = defaultSampleSize)
       \<and> (\<forall>reset s g1. Gauge_Snapshot reset g = Inr (s, g1) \<longrightarrow>
             Gauge_inv g1 \<and> rs_sampleSize (g_resv g1) = defaultSampleSize))
   \<and> (Histogram_inv h \<and> rs_sampleSize (h_resv h) = defaultSampleSize \<longrightarrow>
         (\<forall>v seed h1. Histogram_Record v seed h = Inr h1 \<longrightarrow>
             Histogram_inv h1 \<and> rs_sampleSize (h_resv h1) = defaultSampleSize)
       \<and> (\<forall>reset s h1. Histogram_Snapshot reset h = Inr (s, h1) \<longrightarrow>
             Histogram_inv h1 \<and> rs_sampleSize (h_resv h1) = defaultSampleSize))"
proof -
  have c1: "Counter_Snapshots rs NewCounter = replicate (length rs) zeroSnapshot"
    by (simp add: Counter_Snapshots_zero NewCounter_def)
  have c2: "Counter_Snapshot True c = (s1, c') \<longrightarrow>
         Counter_Snapshots rs c' = replicate (length rs) zeroSnapshot"
    using Counter_Snapshot_drains [of c s1 c'] by (simp add: Counter_Snapshots_zero)
  have g1: "Gauge_Snapshots rs (NewGauge cfg) = Inr (replicate (length rs) zeroSnapshot)"
    by (simp add: Gauge_Snapshots_zero NewGauge_def new_sample_fields)
  have g2: "Gauge_Snapshot True g = Inr (s2, g') \<longrightarrow>
         Gauge_Snapshots rs g' = Inr (replicate (length rs) zeroSnapshot)"
    using Gauge_Snapshot_drains [of g s2 g'] by (simp add: Gauge_Snapshots_zero)
  have h1: "Histogram_Snapshots rs (NewHistogram cfg) = Inr (replicate (length rs) zeroSnapshot)"
    by (simp add: Histogram_Snapshots_zero NewHistogram_def new_sample_fields)
  have h2: "Histogram_Snapshot True h = Inr (s3, h') \<longrightarrow>
         Histogram_Snapshots rs h' = Inr (replicate (length rs) zeroSnapshot)"
    using Histogram_Snapshot_drains [of h s3 h'] by (simp add: Histogram_Snapshots_zero)
  have i1: "Gauge_inv (NewGauge cfg) \<and> rs_sampleSize (g_resv (NewGauge cfg)) = defaultSampleSize"
    by (simp add: Gauge_inv_def NewGauge_def new_sample_fields)
  have i2: "Histogram_inv (NewHistogram cfg)
      \<and> rs_sampleSize (h_resv (NewHistogram cfg)) = defaultSampleSize"
    by (simp add: Histogram_inv_def randomSample_inv_def NewHistogram_def new_sample_fields)
  have i3: "Gauge_inv g \<and> rs_sampleSize (g_resv g) = defaultSampleSize \<longrightarrow>
         (\<forall>v seed g1. Gauge_Record v seed g = Inr g1 \<longrightarrow>
             Gauge_inv g1 \<and> rs_sampleSize (g_resv g1) = defaultSampleSize)
       \<and> (\<forall>delta seed g1. Gauge_Add delta seed g = Inr g1 \<longrightarrow>
             Gauge_inv g1 \<and> rs_sampleSize (g_resv g1) = defaultSampleSize)
       \<and> (\<forall>reset s g1. Gauge_Snapshot reset g = Inr (s, g1) \<longrightarrow>
             Gauge_inv g1 \<and> rs_sampleSize (g_resv g1) = defaultSampleSize)"
    using Gauge_Record_inv [of _ _ g] Gauge_Add_inv [of _ _ g] Gauge_Snapshot_inv [of _ g]
    by metis
  have i4: "Histogram_inv h \<and> rs_sampleSize (h_resv h) = defaultSampleSize \<longrightarrow>
         (\<forall>v seed h1. Histogram_Record v seed h = Inr h1 \<longrightarrow>
             Histogram_inv h1 \<and> rs_sampleSize (h_resv h1) = defaultSampleSize)
       \<and> (\<forall>reset s h1. Histogram_Snapshot reset h = Inr (s, h1) \<longrightarrow>
             Histogram_inv h1 \<and> rs_sampleSize (h_resv h1) = defaultSampleSize)"
    using Histogram_Record_inv [of _ _ h] Histogram_Snapshot_inv [of _ h]
    by metis
  from c1 c2 g1 g2 h1 h2 i1 i2 i3 i4 show ?thesis by blast
qed

theorem empty_state_snapshots_all_zero_witness:
  "(\<exists>s c'. Counter_Snapshot True \<lparr>c_n = 2, c_sum = 8\<rparr> = (s, c') \<and> snap_N s = 2
        \<and> Counter_Snapshots [False, True] c' = [zeroSnapshot, zeroSnapshot])
   \<and> (\<exists>s g'. Gauge_Snapshot True
            \<lparr>g_percentiles = [1 / 2],
             g_resv = \<lparr>rs_sampleSize = 2000, rs_n = 2, rs_sum = 8, rs_max = 5, rs_values = [5, 3]\<rparr>,
             g_last = 3\<rparr> = Inr (s, g') \<and> snap_N s = 2 \<and> snap_Last s = 3
        \<and> Gauge_Snapshots [False, True] g' = Inr [zeroSnapshot, zeroSnapshot])
   \<and> (\<exists>s h'. Histogram_Snapshot True
            \<lparr>h_percentiles = [1 / 2],
             h_resv = \<lparr>rs_sampleSize = 2000, rs_n = 2, rs_sum = 8, rs_max = 5, rs_values = [5, 3]\<rparr>\<rparr>
              = Inr (s, h') \<and> snap_N s = 2
        \<and> Histogram_Snapshots [False, True] h' = Inr [zeroSnapshot, zeroSnapshot])
   \<and> (\<exists>g1. Gauge_Record 7 0 (NewGauge \<lparr>cfg_Percentiles = [1 / 2]\<rparr>) = Inr g1 \<and> Gauge_inv g1)"
proof -
  let ?c = "\<lparr>c_n = 2, c_sum = 8\<rparr>"
  let ?r = "\<lparr>rs_sampleSize = 2000, rs_n = 2, rs_sum = 8, rs_max = 5, rs_values = [5, 3]\<rparr>"
  let ?g = "\<lparr>g_percentiles = [1 / 2], g_resv = ?r, g_last = 3\<rparr>"
  let ?h = "\<lparr>h_percentiles = [1 / 2], h_resv = ?r\<rparr>"
  let ?n = "NewGauge \<lparr>cfg_Percentiles = [1 / 2]\<rparr>"
  obtain sg g' where g: "Gauge_Snapshot True ?g = Inr (sg, g')"
    using Gauge_Snapshot_returns [of ?g True] by (auto simp: is_float64_half)
  obtain sh h' where h: "Histogram_Snapshot True ?h = Inr (sh, h')"
    using Histogram_Snapshot_returns [of ?h True] by (auto simp: is_float64_half)
  obtain sc c' where c: "Counter_Snapshot True ?c = (sc, c')"
    by (cases "Counter_Snapshot True ?c")
  obtain g1 where r: "Gauge_Record 7 0 ?n = Inr g1"
    by (simp add: Gauge_Record_def NewGauge_def newRandomSample_def defaultSampleSize_def
        randomSample_record_def Let_def)
  have ng: "snap_N sg = 2 \<and> snap_Last sg = 3"
    using g by (auto simp: Gauge_Snapshot_def finalize_nonempty Let_def zeroSnapshot_def split: sum.splits)
  have nh: "snap_N sh = 2"
    using h by (auto simp: Histogram_Snapshot_def finalize_nonempty Let_def split: sum.splits)
  have nc: "snap_N sc = 2"
    using c by (auto simp: Counter_Snapshot_def Let_def)
  have l: "replicate (length [False, True]) zeroSnapshot = [zeroSnapshot, zeroSnapshot]"
    by simp
  from empty_state_snapshots_all_zero [of "[False, True]" ?c sc c' "\<lparr>cfg_Percentiles = [1 / 2]\<rparr>" ?g sg g' ?h sh h']
  have "Counter_Snapshots [False, True] c' = [zeroSnapshot, zeroSnapshot]"
    "Gauge_Snapshots [False, True] g' = Inr [zeroSnapshot, zeroSnapshot]"
    "Histogram_Snapshots [False, True] h' = Inr [zeroSnapshot, zeroSnapshot]"
    "Gauge_inv ?n \<and> rs_sampleSize (g_resv ?n) = defaultSampleSize"
    using c g h unfolding l by blast+
  moreover from empty_state_snapshots_all_zero [of "[]" ?c sc c' "\<lparr>cfg_Percentiles = [1 / 2]\<rparr>" ?n sg g' ?h sh h']
  have "Gauge_inv ?n \<and> rs_sampleSize (g_resv ?n) = defaultSampleSize \<longrightarrow> Gauge_inv g1"
    using r by blast
  ultimately show ?thesis using c g h r ng nh nc by blast
qed

section \<open>The Counter: two variants, and overlapping callers\<close>

lemma Counter_call_same: "Counter_call x c = Counter_call_mutex x c"
  by (cases x)
     (simp_all add: Counter_Add_def Counter_Add_mutex_def atomic_AddInt64_n_def
        atomic_AddInt64_sum_def Counter_Count_def Counter_Count_mutex_def
        Counter_Snapshot_def Counter_Snapshot_mutex_def)

lemma Counter_calls_same: "Counter_calls xs c = Counter_calls_mutex xs c"
  by (induction xs arbitrary: c) (simp_all add: Counter_call_same split: prod.splits)

text \<open>
  Claim C9. Called by a single caller, the Counter with atomic additions and the Counter
  with the mutex return the same results: for every sequence of \<open>Add\<close>, \<open>Count\<close> and
  \<open>Snapshot\<close> calls on a fresh Counter, the lists of returned values are equal.
\<close>

theorem counter_variants_agree:
  "Counter_calls calls NewCounter = Counter_calls_mutex calls NewCounter"
  by (rule Counter_calls_same)

text \<open>
  Run without interruption, the step lists are the methods of the sequential model.
\<close>

lemma Add_steps_run:
  "fold Counter_step (Add_steps delta) (c, out) = (Counter_Add delta c, out)"
  by (simp add: Add_steps_def Counter_Add_def)

lemma Snapshot_steps_run:
  "fold Counter_step (Snapshot_steps reset) (c, out) =
     (snd (Counter_Snapshot reset c), out @ [fst (Counter_Snapshot reset c)])"
  by (simp add: Snapshot_steps_def Counter_Snapshot_def Let_def)

text \<open>
  Claim C6. One caller runs \<open>Add(5)\<close> on a fresh atomic Counter while another runs
  \<open>Snapshot(true)\<close> twice. In the first schedule both atomic additions fall between the
  read and the clear of the first \<open>Snapshot\<close>: both snapshots are all zero and the
  \<open>Add\<close> is lost. In the second schedule the first \<open>Snapshot\<close> runs between the two
  additions: the \<open>Add\<close> is split, its count in the first snapshot and its delta in the
  second. The last conjunct is the run without overlap, for comparison.
\<close>

theorem add_lost_between_read_and_clear:
  "[StepSnapRead, StepAddN, StepAddSum 5, StepSnapClear, StepSnapRead, StepSnapClear]
      \<in> set (interleavings (Add_steps 5) (Snapshot_steps True @ Snapshot_steps True))
   \<and> run_schedule [StepSnapRead, StepAddN, StepAddSum 5, StepSnapClear, StepSnapRead, StepSnapClear]
        NewCounter = (NewCounter, [zeroSnapshot, zeroSnapshot])
   \<and> [StepAddN, StepSnapRead, StepSnapClear, StepAddSum 5, StepSnapRead, StepSnapClear]
      \<in> set (interleavings (Add_steps 5) (Snapshot_steps True @ Snapshot_steps True))
   \<and> run_schedule [StepAddN, StepSnapRead, StepSnapClear, StepAddSum 5, StepSnapRead, StepSnapClear]
        NewCounter = (NewCounter, [zeroSnapshot\<lparr>snap_N := 1\<rparr>, zeroSnapshot\<lparr>snap_Sum := 5\<rparr>])
   \<and> run_schedule (Add_steps 5 @ Snapshot_steps True @ Snapshot_steps True) NewCounter
        = (NewCounter, [zeroSnapshot\<lparr>snap_N := 1, snap_Sum := 5\<rparr>, zeroSnapshot])"
  by (simp add: Add_steps_def Snapshot_steps_def run_schedule_def NewCounter_def
      atomic_AddInt64_n_def atomic_AddInt64_sum_def wrap64_def zeroSnapshot_def
      float64_of_int_small)

end
